theory Spec2Isabelle
  imports Main "HOL-Library.Word"
begin

section \<open>JavaScript strings\<close>

text \<open>
  A JavaScript string is a sequence of 16-bit code units. The regular expressions of
  \<^verbatim>\<open>main.js\<close> carry no \<^verbatim>\<open>u\<close> flag, so they, \<^verbatim>\<open>trim\<close> and \<^verbatim>\<open>replaceAll\<close> all work on
  code units. \<open>js\<close> reads a literal of ASCII characters as such a string.
\<close>

type_synonym jschar = "16 word"
type_synonym jsstring = "jschar list"

definition js :: "string \<Rightarrow> jsstring" where
  "js s = map of_char s"

text \<open>The bytes of a literal of ASCII characters.\<close>

definition bytes :: "string \<Rightarrow> 8 word list" where
  "bytes s = map of_char s"

text \<open>
  A value handed to \<^verbatim>\<open>sanitizeFilename\<close>: a string, or a value of any other type
  (\<^verbatim>\<open>undefined\<close>, \<^verbatim>\<open>null\<close>, a number, an object).
\<close>

datatype jsvalue = JString jsstring | JNonString

section \<open>sanitizeFilename\<close>

text \<open>The character class \<^verbatim>\<open>[<>:"/\\|?*]\<close>, by code unit.\<close>

definition forbidden :: "jschar \<Rightarrow> bool" where
  "forbidden c \<longleftrightarrow>
     c = 0x3C \<or> c = 0x3E \<or> c = 0x3A \<or> c = 0x22 \<or> c = 0x2F \<or>
     c = 0x5C \<or> c = 0x7C \<or> c = 0x3F \<or> c = 0x2A"

definition underscore :: jschar where
  "underscore = 0x5F"

definition space :: jschar where
  "space = 0x20"

text \<open>\<^verbatim>\<open>name.replace(/[<>:"/\\|?*]/g, "_")\<close>: every match is one code unit.\<close>

definition replaceForbidden :: "jsstring \<Rightarrow> jsstring" where
  "replaceForbidden s = map (\<lambda>c. if forbidden c then underscore else c) s"

text \<open>
  What \<^verbatim>\<open>String.prototype.trim\<close> strips: the WhiteSpace and LineTerminator code
  points of ECMAScript, all of them in the basic plane.
\<close>

definition isWhiteSpace :: "jschar \<Rightarrow> bool" where
  "isWhiteSpace c \<longleftrightarrow>
     (0x09 \<le> c \<and> c \<le> 0x0D) \<or> c = 0x20 \<or> c = 0xA0 \<or> c = 0x1680 \<or>
     (0x2000 \<le> c \<and> c \<le> 0x200A) \<or> c = 0x2028 \<or> c = 0x2029 \<or>
     c = 0x202F \<or> c = 0x205F \<or> c = 0x3000 \<or> c = 0xFEFF"

definition trim :: "jsstring \<Rightarrow> jsstring" where
  "trim s = rev (dropWhile isWhiteSpace (rev (dropWhile isWhiteSpace s)))"

text \<open>
  \<^verbatim>\<open>saneName.replaceAll("  ", " ")\<close>: the matches are found left to right in the
  original string and do not overlap; the result is not scanned again.
\<close>

fun replaceAllDoubleSpace :: "jsstring \<Rightarrow> jsstring" where
  "replaceAllDoubleSpace (a # b # rest) =
     (if a = space \<and> b = space then space # replaceAllDoubleSpace rest
      else a # replaceAllDoubleSpace (b # rest))"
| "replaceAllDoubleSpace s = s"

definition untitled :: jsstring where
  "untitled = js ''untitled''"

definition sanitizeFilename :: "jsvalue \<Rightarrow> jsstring" where
  "sanitizeFilename name =
     (case name of
        JNonString \<Rightarrow> untitled
      | JString s \<Rightarrow>
          if s = [] then untitled
          else let saneName = replaceAllDoubleSpace (trim (replaceForbidden s))
               in if saneName = [] then untitled else saneName)"

section \<open>The platform and the world\<close>

type_synonym path = jsstring
type_synonym url = jsstring
type_synonym content = "8 word list"

text \<open>
  What \<^verbatim>\<open>fetch\<close> settles to: a response with its status and body, or a rejection
  (DNS, timeout, connection reset).
\<close>

datatype fetch_result = Response nat content | TransportFault

text \<open>\<^verbatim>\<open>response.ok\<close>: the status is in the range 200 to 299.\<close>

definition ok :: "nat \<Rightarrow> bool" where
  "ok status \<longleftrightarrow> 200 \<le> status \<and> status \<le> 299"

text \<open>
  The library functions and the outside world that \<^verbatim>\<open>main.js\<close> calls are parameters
  of the model:
  \<^item> \<open>join\<close> is \<^verbatim>\<open>path.join\<close> of two arguments;
  \<^item> \<open>encodeURIComponent\<close> is the built-in, \<open>None\<close> where it throws a
    \<^verbatim>\<open>URIError\<close> (a lone surrogate);
  \<^item> \<open>resolveUrl rel base\<close> is \<^verbatim>\<open>new URL(rel, base).href\<close>, \<open>None\<close> where the
    constructor throws a \<^verbatim>\<open>TypeError\<close>;
  \<^item> \<open>rejectsPath\<close> says for which paths \<^verbatim>\<open>Bun.file(path).exists()\<close> throws a
    \<^verbatim>\<open>TypeError\<close>: the paths the runtime does not accept, such as one with a NUL;
  \<^item> \<open>remote\<close> is what the network answers to a GET of a URL;
  \<^item> \<open>mkdirFails\<close> and \<open>writeFails\<close> say on which paths \<^verbatim>\<open>mkdir\<close> and
    \<^verbatim>\<open>Bun.write\<close> reject.

  The first four are functions of their arguments in the program too. The last three
  stand for the outside world during one run. A run deletes nothing, so what
  \<^verbatim>\<open>mkdir\<close> and \<^verbatim>\<open>Bun.write\<close> do at one path is the same at every call of the run:
  a path that holds a file stays one where \<^verbatim>\<open>mkdir\<close> fails, a path that is a directory
  stays one where writing fails. The same holds for a run and the run that follows it.
  It does not hold for two runs that differ in the order of the nodes or in the answers
  of the network: a file that one of them writes can stand where the other makes a
  directory. Statements that compare two such runs therefore assume that no \<^verbatim>\<open>mkdir\<close>
  fails.
\<close>

record platform =
  join :: "path \<Rightarrow> jsstring \<Rightarrow> path"
  encodeURIComponent :: "jsstring \<Rightarrow> jsstring option"
  resolveUrl :: "jsstring \<Rightarrow> url \<Rightarrow> url option"
  rejectsPath :: "path \<Rightarrow> bool"
  remote :: "url \<Rightarrow> fetch_result"
  mkdirFails :: "path \<Rightarrow> bool"
  writeFails :: "path \<Rightarrow> bool"

text \<open>
  What a run does that can be seen from outside, in the order it happens: the calls of
  \<^verbatim>\<open>mkdir\<close> and their outcome, the calls of \<^verbatim>\<open>downloadFile\<close>, the requests sent to
  the network and the files written.
\<close>

datatype event =
    MkdirOk path
  | MkdirError path
  | Download url path
  | Get url
  | Saved path

text \<open>
  The world: the directories \<^verbatim>\<open>mkdir\<close> has created, the files with their contents,
  and the events so far. The parent directories that \<^verbatim>\<open>mkdir\<close> and \<^verbatim>\<open>Bun.write\<close>
  create on the way to their target are not recorded.
\<close>

record world =
  dirs :: "path set"
  files :: "path \<rightharpoonup> content"
  trace :: "event list"

definition emit :: "event \<Rightarrow> world \<Rightarrow> world" where
  "emit e w = w\<lparr>trace := trace w @ [e]\<rparr>"

section \<open>downloadFile\<close>

text \<open>The faults that leave \<^verbatim>\<open>downloadFile\<close> and \<^verbatim>\<open>processMenuItems\<close> uncaught.\<close>

datatype fault = TypeError | URIError

text \<open>
  The \<^verbatim>\<open>try\<close> block of \<^verbatim>\<open>downloadFile\<close> with its \<^verbatim>\<open>catch\<close>: the world afterwards
  and the returned boolean. Every throw inside the block (a rejected fetch, a status
  that is not ok, a rejected write) ends in the \<^verbatim>\<open>catch\<close>, which returns false.
\<close>

definition fetchAndWrite :: "platform \<Rightarrow> url \<Rightarrow> path \<Rightarrow> world \<Rightarrow> world \<times> bool" where
  "fetchAndWrite pf u targetPath w =
     (let w1 = emit (Get u) w in
      case remote pf u of
        TransportFault \<Rightarrow> (w1, False)
      | Response status body \<Rightarrow>
          if \<not> ok status then (w1, False)
          else if writeFails pf targetPath then (w1, False)
          else (emit (Saved targetPath) (w1\<lparr>files := (files w1)(targetPath \<mapsto> body)\<rparr>), True))"

text \<open>
  \<^verbatim>\<open>downloadFile\<close>. The test \<^verbatim>\<open>await Bun.file(targetPath).exists()\<close> stands before
  the \<^verbatim>\<open>try\<close>: where it throws, the fault leaves \<^verbatim>\<open>downloadFile\<close>. Otherwise the
  result is the world afterwards and the returned boolean.
\<close>

definition downloadFile ::
  "platform \<Rightarrow> url \<Rightarrow> path \<Rightarrow> world \<Rightarrow> (fault \<times> world) + (world \<times> bool)" where
  "downloadFile pf u targetPath w0 =
     (let w = emit (Download u targetPath) w0 in
      if rejectsPath pf targetPath then Inl (TypeError, w)
      else if files w targetPath \<noteq> None then Inr (w, True)
      else Inr (fetchAndWrite pf u targetPath w))"

section \<open>processMenuItems\<close>

text \<open>
  A menu item as \<^verbatim>\<open>datasource.js\<close> gives it: each of the three fields may be
  absent.
\<close>

datatype MenuNode =
  MenuNode (title: "jsstring option") (href: "jsstring option") (children: "MenuNode list option")

text \<open>\<^verbatim>\<open>item.title || "Untitled_Folder"\<close>: an absent or empty title is falsy.\<close>

definition itemTitle :: "MenuNode \<Rightarrow> jsstring" where
  "itemTitle item =
     (case title item of
        None \<Rightarrow> js ''Untitled_Folder''
      | Some t \<Rightarrow> if t = [] then js ''Untitled_Folder'' else t)"

definition sanitizedItemTitle :: "MenuNode \<Rightarrow> jsstring" where
  "sanitizedItemTitle item = sanitizeFilename (JString (itemTitle item))"

definition itemPath :: "platform \<Rightarrow> path \<Rightarrow> MenuNode \<Rightarrow> path" where
  "itemPath pf currentFsPath item = join pf currentFsPath (sanitizedItemTitle item)"

subsection \<open>The pattern of a document reference\<close>

text \<open>
  \<^verbatim>\<open>/^(.*?)(?:-[a-z]{2}-[A-Z]{2})?\.html/\<close>. The dot matches any code unit but a line
  terminator. The group \<^verbatim>\<open>(.*?)\<close> is lazy: it is tried empty first and grows by one
  code unit each time the rest of the pattern fails. The pattern is anchored at the start
  only.
\<close>

definition isLineTerminator :: "jschar \<Rightarrow> bool" where
  "isLineTerminator c \<longleftrightarrow> c = 0x0A \<or> c = 0x0D \<or> c = 0x2028 \<or> c = 0x2029"

definition isLower :: "jschar \<Rightarrow> bool" where
  "isLower c \<longleftrightarrow> 0x61 \<le> c \<and> c \<le> 0x7A"

definition isUpper :: "jschar \<Rightarrow> bool" where
  "isUpper c \<longleftrightarrow> 0x41 \<le> c \<and> c \<le> 0x5A"

definition startsWith :: "jsstring \<Rightarrow> jsstring \<Rightarrow> bool" where
  "startsWith s p \<longleftrightarrow> take (length p) s = p"

text \<open>What follows a locale suffix \<^verbatim>\<open>-[a-z]{2}-[A-Z]{2}\<close> at the start of \<open>s\<close>.\<close>

fun afterLocale :: "jsstring \<Rightarrow> jsstring option" where
  "afterLocale (d1 # a # b # d2 # c # d # rest) =
     (if d1 = 0x2D \<and> isLower a \<and> isLower b \<and> d2 = 0x2D \<and> isUpper c \<and> isUpper d
      then Some rest else None)"
| "afterLocale s = None"

text \<open>\<^verbatim>\<open>(?:-[a-z]{2}-[A-Z]{2})?\.html\<close> matches at the start of \<open>s\<close>.\<close>

definition suffixMatches :: "jsstring \<Rightarrow> bool" where
  "suffixMatches s \<longleftrightarrow>
     (case afterLocale s of Some rest \<Rightarrow> startsWith rest (js ''.html'') | None \<Rightarrow> False)
     \<or> startsWith s (js ''.html'')"

text \<open>The first capture group of the match, \<open>None\<close> when \<^verbatim>\<open>match\<close> returns null.\<close>

fun pdfNameMatch :: "jsstring \<Rightarrow> jsstring option" where
  "pdfNameMatch [] = None"
| "pdfNameMatch (c # s) =
     (if suffixMatches (c # s) then Some []
      else if isLineTerminator c then None
      else map_option ((#) c) (pdfNameMatch s))"

text \<open>
  \<^verbatim>\<open>href\<close> is truthy, the pattern matches and the group is not empty: the base name
  of the document.
\<close>

definition pdfBaseName :: "MenuNode \<Rightarrow> jsstring option" where
  "pdfBaseName item =
     (case href item of
        None \<Rightarrow> None
      | Some h \<Rightarrow>
          if h = [] then None
          else
            (case pdfNameMatch h of
               None \<Rightarrow> None
             | Some b \<Rightarrow> if b = [] then None else Some b))"

text \<open>
  \<^verbatim>\<open>new URL(`${encodeURIComponent(pdfBaseName)}.pdf`, pdfDocBaseUrl).href\<close>, with the
  fault of whichever call throws first.
\<close>

definition pdfUrl :: "platform \<Rightarrow> url \<Rightarrow> jsstring \<Rightarrow> fault + url" where
  "pdfUrl pf pdfDocBaseUrl b =
     (case encodeURIComponent pf b of
        None \<Rightarrow> Inl URIError
      | Some e \<Rightarrow>
          (case resolveUrl pf (e @ js ''.pdf'') pdfDocBaseUrl of
             None \<Rightarrow> Inl TypeError
           | Some u \<Rightarrow> Inr u))"

text \<open>
  The scan of the direct children: \<^verbatim>\<open>child.href && child.href == href\<close>. It runs
  only where \<open>h\<close> is a non-empty string.
\<close>

definition hasDuplicateInSubtree :: "jsstring \<Rightarrow> MenuNode list \<Rightarrow> bool" where
  "hasDuplicateInSubtree h cs \<longleftrightarrow>
     (\<exists>child \<in> set cs. href child \<noteq> None \<and> href child \<noteq> Some [] \<and> href child = Some h)"

definition pdfTargetPath :: "platform \<Rightarrow> path \<Rightarrow> MenuNode \<Rightarrow> MenuNode list \<Rightarrow> path" where
  "pdfTargetPath pf currentFsPath item cs =
     (if length cs > 0
      then itemPath pf currentFsPath item @ js ''/'' @ sanitizedItemTitle item @ js ''.pdf''
      else itemPath pf currentFsPath item @ js ''.pdf'')"

text \<open>
  The block under \<^verbatim>\<open>if (href)\<close> for one item: nothing where there is no base name;
  otherwise the URL is built, the children are scanned (a \<^verbatim>\<open>TypeError\<close> where the
  field is absent: \<^verbatim>\<open>for (const child of undefined)\<close>), and the document is downloaded
  unless a child repeats the reference. The boolean that \<^verbatim>\<open>downloadFile\<close> returns is
  dropped; a fault that leaves it leaves the walk.
  Where there is a base name, \<open>href item\<close> is \<open>Some h\<close> with \<open>h\<close> not empty, and
  \<open>the (href item)\<close> is that \<open>h\<close>.
\<close>

definition processDocument ::
  "platform \<Rightarrow> MenuNode \<Rightarrow> path \<Rightarrow> url \<Rightarrow> world \<Rightarrow> (fault \<times> world) + world" where
  "processDocument pf item currentFsPath pdfDocBaseUrl w =
     (case pdfBaseName item of
        None \<Rightarrow> Inr w
      | Some b \<Rightarrow>
          (case pdfUrl pf pdfDocBaseUrl b of
             Inl f \<Rightarrow> Inl (f, w)
           | Inr u \<Rightarrow>
               (case children item of
                  None \<Rightarrow> Inl (TypeError, w)
                | Some cs \<Rightarrow>
                    if hasDuplicateInSubtree (the (href item)) cs then Inr w
                    else
                      (case downloadFile pf u (pdfTargetPath pf currentFsPath item cs) w of
                         Inl fw \<Rightarrow> Inl fw
                       | Inr r \<Rightarrow> Inr (fst r)))))"

text \<open>
  The world after \<^verbatim>\<open>mkdir(currentFsPath, { recursive: true })\<close> has succeeded and the
  line \<^verbatim>\<open>Created directory\<close> is logged.
\<close>

definition created :: "path \<Rightarrow> world \<Rightarrow> world" where
  "created currentFsPath w = emit (MkdirOk currentFsPath) (w\<lparr>dirs := insert currentFsPath (dirs w)\<rparr>)"

text \<open>
  The loop over the items and the body of one iteration. A fault leaves the loop and
  every enclosing call, with the world as it was when it was thrown.
\<close>

fun processMenuItems ::
    "platform \<Rightarrow> MenuNode list \<Rightarrow> path \<Rightarrow> url \<Rightarrow> world \<Rightarrow> (fault \<times> world) + world"
  and processItem ::
    "platform \<Rightarrow> MenuNode \<Rightarrow> path \<Rightarrow> url \<Rightarrow> world \<Rightarrow> (fault \<times> world) + world"
where
  "processMenuItems pf [] currentFsPath pdfDocBaseUrl w = Inr w"
| "processMenuItems pf (item # items) currentFsPath pdfDocBaseUrl w =
     (case processItem pf item currentFsPath pdfDocBaseUrl w of
        Inl fw \<Rightarrow> Inl fw
      | Inr w' \<Rightarrow> processMenuItems pf items currentFsPath pdfDocBaseUrl w')"
| "processItem pf (MenuNode t h cso) currentFsPath pdfDocBaseUrl w =
     (if mkdirFails pf currentFsPath then Inr (emit (MkdirError currentFsPath) w)
      else
        case processDocument pf (MenuNode t h cso) currentFsPath pdfDocBaseUrl (created currentFsPath w) of
          Inl fw \<Rightarrow> Inl fw
        | Inr w2 \<Rightarrow>
            (case cso of
               None \<Rightarrow> Inr w2
             | Some cs \<Rightarrow>
                 if length cs > 0
                 then processMenuItems pf cs (itemPath pf currentFsPath (MenuNode t h cso)) pdfDocBaseUrl w2
                 else Inr w2))"

section \<open>What a walk is expected to do\<close>

text \<open>The events of a run that starts in \<open>w\<close> and ends in \<open>w'\<close>.\<close>

definition newEvents :: "world \<Rightarrow> world \<Rightarrow> event list" where
  "newEvents w w' = drop (length (trace w)) (trace w')"

text \<open>The world in which a call ends, whether it returns or throws.\<close>

definition outcomeWorld :: "(fault \<times> world) + world \<Rightarrow> world" where
  "outcomeWorld r = (case r of Inl fw \<Rightarrow> snd fw | Inr w \<Rightarrow> w)"

text \<open>The children of an item, none where the field is absent.\<close>

definition childList :: "MenuNode \<Rightarrow> MenuNode list" where
  "childList item = (case children item of None \<Rightarrow> [] | Some cs \<Rightarrow> cs)"

text \<open>
  Every node reachable from a sequence of nodes, each with the path computed by
  repeated \<open>join\<close> of the parent's path and the node's sanitized title.
\<close>

fun nodePaths :: "platform \<Rightarrow> MenuNode list \<Rightarrow> path \<Rightarrow> (MenuNode \<times> path) list"
  and nodePathsItem :: "platform \<Rightarrow> MenuNode \<Rightarrow> path \<Rightarrow> (MenuNode \<times> path) list"
where
  "nodePaths pf [] cur = []"
| "nodePaths pf (item # items) cur = nodePathsItem pf item cur @ nodePaths pf items cur"
| "nodePathsItem pf (MenuNode t h cso) cur =
     (MenuNode t h cso, itemPath pf cur (MenuNode t h cso)) #
     (case cso of
        None \<Rightarrow> []
      | Some cs \<Rightarrow> nodePaths pf cs (itemPath pf cur (MenuNode t h cso)))"

text \<open>
  The directories a walk is expected to create: the current path of every item it
  visits, that is the starting path where there is an item, and the path of every node
  that has a child, as long as \<^verbatim>\<open>mkdir\<close> succeeds on the way.
\<close>

fun createdDirs :: "platform \<Rightarrow> MenuNode list \<Rightarrow> path \<Rightarrow> path set"
  and createdDirsItem :: "platform \<Rightarrow> MenuNode \<Rightarrow> path \<Rightarrow> path set"
where
  "createdDirs pf [] cur = {}"
| "createdDirs pf (item # items) cur = createdDirsItem pf item cur \<union> createdDirs pf items cur"
| "createdDirsItem pf (MenuNode t h cso) cur =
     (if mkdirFails pf cur then {}
      else insert cur
        (case cso of
           None \<Rightarrow> {}
         | Some cs \<Rightarrow> createdDirs pf cs (itemPath pf cur (MenuNode t h cso))))"

text \<open>
  The precondition of a walk that ends without a fault: every node it visits that has
  a base name has a URL and a \<^verbatim>\<open>children\<close> field and, where it is downloaded, a
  destination that the runtime accepts.
\<close>

definition documentOk :: "platform \<Rightarrow> url \<Rightarrow> MenuNode \<Rightarrow> path \<Rightarrow> bool" where
  "documentOk pf base item cur \<longleftrightarrow>
     (case pdfBaseName item of
        None \<Rightarrow> True
      | Some b \<Rightarrow>
          (case pdfUrl pf base b of
             Inl f \<Rightarrow> False
           | Inr u \<Rightarrow>
               (case children item of
                  None \<Rightarrow> False
                | Some cs \<Rightarrow>
                    hasDuplicateInSubtree (the (href item)) cs
                    \<or> \<not> rejectsPath pf (pdfTargetPath pf cur item cs))))"

fun noFault :: "platform \<Rightarrow> url \<Rightarrow> MenuNode list \<Rightarrow> path \<Rightarrow> bool"
  and noFaultItem :: "platform \<Rightarrow> url \<Rightarrow> MenuNode \<Rightarrow> path \<Rightarrow> bool"
where
  "noFault pf base [] cur \<longleftrightarrow> True"
| "noFault pf base (item # items) cur \<longleftrightarrow> noFaultItem pf base item cur \<and> noFault pf base items cur"
| "noFaultItem pf base (MenuNode t h cso) cur \<longleftrightarrow>
     mkdirFails pf cur \<or>
     (documentOk pf base (MenuNode t h cso) cur \<and>
      (case cso of
         None \<Rightarrow> True
       | Some cs \<Rightarrow> noFault pf base cs (itemPath pf cur (MenuNode t h cso))))"

text \<open>
  Two sequences of nodes that differ in the order of siblings only, at any depth: the
  relation generated by swapping two neighbours, reordering the children of a node, and
  chaining.
\<close>

inductive siblingPerm :: "MenuNode list \<Rightarrow> MenuNode list \<Rightarrow> bool" where
  permNil: "siblingPerm [] []"
| permWithin: "siblingPerm cs cs' \<Longrightarrow> siblingPerm ns ns' \<Longrightarrow>
     siblingPerm (MenuNode t h (Some cs) # ns) (MenuNode t h (Some cs') # ns')"
| permSame: "siblingPerm ns ns' \<Longrightarrow> siblingPerm (n # ns) (n # ns')"
| permSwap: "siblingPerm (a # b # ns) (b # a # ns)"
| permTrans: "siblingPerm ns ns' \<Longrightarrow> siblingPerm ns' ns'' \<Longrightarrow> siblingPerm ns ns''"

text \<open>The calls of \<^verbatim>\<open>downloadFile\<close> among some events, as pairs of URL and destination.\<close>

fun downloads :: "event list \<Rightarrow> (url \<times> path) list" where
  "downloads [] = []"
| "downloads (Download u p # es) = (u, p) # downloads es"
| "downloads (e # es) = downloads es"

text \<open>The URLs requested from the network among some events.\<close>

fun requests :: "event list \<Rightarrow> url list" where
  "requests [] = []"
| "requests (Get u # es) = u # requests es"
| "requests (e # es) = requests es"

text \<open>
  The calls of \<^verbatim>\<open>downloadFile\<close> a walk is expected to make, in order: one for every
  visited node that has a base name and a URL and no direct child repeating its
  reference, to the destination its children decide.
\<close>

definition plannedDocument :: "platform \<Rightarrow> url \<Rightarrow> MenuNode \<Rightarrow> path \<Rightarrow> (url \<times> path) list" where
  "plannedDocument pf base item cur =
     (case pdfBaseName item of
        None \<Rightarrow> []
      | Some b \<Rightarrow>
          (case pdfUrl pf base b of
             Inl f \<Rightarrow> []
           | Inr u \<Rightarrow>
               (case children item of
                  None \<Rightarrow> []
                | Some cs \<Rightarrow>
                    if hasDuplicateInSubtree (the (href item)) cs then []
                    else [(u, pdfTargetPath pf cur item cs)])))"

fun plannedDownloads :: "platform \<Rightarrow> url \<Rightarrow> MenuNode list \<Rightarrow> path \<Rightarrow> (url \<times> path) list"
  and plannedDownloadsItem :: "platform \<Rightarrow> url \<Rightarrow> MenuNode \<Rightarrow> path \<Rightarrow> (url \<times> path) list"
where
  "plannedDownloads pf base [] cur = []"
| "plannedDownloads pf base (item # items) cur =
     plannedDownloadsItem pf base item cur @ plannedDownloads pf base items cur"
| "plannedDownloadsItem pf base (MenuNode t h cso) cur =
     (if mkdirFails pf cur then []
      else plannedDocument pf base (MenuNode t h cso) cur @
        (case cso of
           None \<Rightarrow> []
         | Some cs \<Rightarrow> plannedDownloads pf base cs (itemPath pf cur (MenuNode t h cso))))"

text \<open>
  A download that cannot succeed: the request to the URL meets a transport fault or a
  status that is not a success.
\<close>

definition failing :: "platform \<Rightarrow> url \<Rightarrow> bool" where
  "failing pf u \<longleftrightarrow>
     (case remote pf u of TransportFault \<Rightarrow> True | Response status body \<Rightarrow> \<not> ok status)"

section \<open>A concrete platform\<close>

text \<open>
  The examples run on this platform. Its functions agree with the library's on the
  examples' inputs: \<^verbatim>\<open>path.join(a, b)\<close> is \<open>a/b\<close> on POSIX where \<open>a\<close> is a
  normalised relative path and \<open>b\<close> one non-empty segment other than \<^verbatim>\<open>.\<close> and
  \<^verbatim>\<open>..\<close>; \<^verbatim>\<open>encodeURIComponent\<close> leaves letters, digits and \<^verbatim>\<open>- _ .\<close> as they are;
  \<^verbatim>\<open>new URL(rel, base).href\<close> is \<open>base\<close> followed by \<open>rel\<close> where \<open>base\<close> ends in a
  slash and \<open>rel\<close> is one path segment of such characters.
\<close>

definition posixJoin :: "path \<Rightarrow> jsstring \<Rightarrow> path" where
  "posixJoin a b = a @ js ''/'' @ b"

definition plainEncode :: "jsstring \<Rightarrow> jsstring option" where
  "plainEncode b = Some b"

definition plainResolve :: "jsstring \<Rightarrow> url \<Rightarrow> url option" where
  "plainResolve rel base = Some (base @ rel)"

text \<open>A server that has every document, and one that has none.\<close>

definition serving :: "url \<Rightarrow> fetch_result" where
  "serving u = Response 200 (bytes ''%PDF'')"

definition notFound :: "url \<Rightarrow> fetch_result" where
  "notFound u = Response 404 []"

definition unreachable :: "url \<Rightarrow> fetch_result" where
  "unreachable u = TransportFault"

definition never :: "path \<Rightarrow> bool" where
  "never p = False"

definition always :: "path \<Rightarrow> bool" where
  "always p = True"

text \<open>The runtime accepts no path with a NUL.\<close>

definition containsNul :: "path \<Rightarrow> bool" where
  "containsNul p \<longleftrightarrow> 0 \<in> set p"

definition posix :: "(url \<Rightarrow> fetch_result) \<Rightarrow> (path \<Rightarrow> bool) \<Rightarrow> platform" where
  "posix r mf =
     \<lparr>join = posixJoin, encodeURIComponent = plainEncode, resolveUrl = plainResolve,
      rejectsPath = containsNul, remote = r, mkdirFails = mf, writeFails = never\<rparr>"

text \<open>Items with a title, for the examples: a document, a folder, a section with both.\<close>

definition leaf :: "string \<Rightarrow> string \<Rightarrow> MenuNode" where
  "leaf t h = MenuNode (Some (js t)) (Some (js h)) (Some [])"

definition folder :: "string \<Rightarrow> MenuNode list \<Rightarrow> MenuNode" where
  "folder t cs = MenuNode (Some (js t)) None (Some cs)"

definition branch :: "string \<Rightarrow> string \<Rightarrow> MenuNode list \<Rightarrow> MenuNode" where
  "branch t h cs = MenuNode (Some (js t)) (Some (js h)) (Some cs)"

text \<open>A document whose title is the letter A followed by a NUL.\<close>

definition nulLeaf :: "string \<Rightarrow> MenuNode" where
  "nulLeaf h = MenuNode (Some [0x41, 0]) (Some (js h)) (Some [])"

text \<open>An item with a title and a reference but no \<^verbatim>\<open>children\<close> field.\<close>

definition bare :: "string \<Rightarrow> string \<Rightarrow> MenuNode" where
  "bare t h = MenuNode (Some (js t)) (Some (js h)) None"

text \<open>The world before a run: nothing on disk, nothing done.\<close>

definition emptyWorld :: world where
  "emptyWorld = \<lparr>dirs = {}, files = Map.empty, trace = []\<rparr>"

text \<open>The same, with a file of zero bytes at one path.\<close>

definition worldWithEmptyFile :: "path \<Rightarrow> world" where
  "worldWithEmptyFile p = \<lparr>dirs = {}, files = [p \<mapsto> []], trace = []\<rparr>"

section \<open>Properties of sanitizeFilename\<close>

lemmas char_defs = forbidden_def underscore_def space_def isWhiteSpace_def js_def untitled_def



















section \<open>Properties of downloadFile\<close>

lemmas eval_defs =
  posix_def posixJoin_def plainEncode_def plainResolve_def serving_def notFound_def unreachable_def
  never_def always_def emptyWorld_def leaf_def folder_def branch_def containsNul_def
  processDocument_def pdfBaseName_def pdfUrl_def hasDuplicateInSubtree_def pdfTargetPath_def
  itemPath_def sanitizedItemTitle_def itemTitle_def sanitizeFilename_def replaceForbidden_def trim_def
  suffixMatches_def startsWith_def isLineTerminator_def isLower_def isUpper_def
  downloadFile_def fetchAndWrite_def emit_def created_def ok_def newEvents_def childList_def
  outcomeWorld_def char_defs bytes_def Let_def

lemma emit_simps:
  "dirs (emit e w) = dirs w"
  "files (emit e w) = files w"
  "trace (emit e w) = trace w @ [e]"
  by (simp_all add: emit_def)

lemma created_simps:
  "dirs (created cur w) = insert cur (dirs w)"
  "files (created cur w) = files w"
  "trace (created cur w) = trace w @ [MkdirOk cur]"
  by (simp_all add: created_def emit_def)

lemma fetchAndWrite_dirs: "dirs (fst (fetchAndWrite pf u p w)) = dirs w"
  by (simp add: fetchAndWrite_def emit_def Let_def split: fetch_result.splits)

lemma fetchAndWrite_files:
  "files w p = None \<Longrightarrow> files w \<subseteq>\<^sub>m files (fst (fetchAndWrite pf u p w))"
  by (auto simp: fetchAndWrite_def emit_def Let_def map_le_def split: fetch_result.splits)

lemma fetchAndWrite_trace:
  "\<exists>es. trace (fst (fetchAndWrite pf u p w)) = trace w @ Get u # es
        \<and> (\<forall>u' p'. Download u' p' \<notin> set es) \<and> (\<forall>u'. Get u' \<notin> set es)"
  by (simp add: fetchAndWrite_def emit_def Let_def split: fetch_result.splits)

lemma downloadFile_rejected:
  "rejectsPath pf p \<Longrightarrow> downloadFile pf u p w = Inl (TypeError, emit (Download u p) w)"
  by (simp add: downloadFile_def Let_def)

lemma downloadFile_existing:
  "\<not> rejectsPath pf p \<Longrightarrow> p \<in> dom (files w) \<Longrightarrow>
   downloadFile pf u p w = Inr (emit (Download u p) w, True)"
  by (auto simp: downloadFile_def emit_def Let_def)

lemma downloadFile_absent:
  "\<not> rejectsPath pf p \<Longrightarrow> files w p = None \<Longrightarrow>
   downloadFile pf u p w = Inr (fetchAndWrite pf u p (emit (Download u p) w))"
  by (simp add: downloadFile_def emit_def Let_def)

lemma downloadFile_Inl:
  "downloadFile pf u p w = Inl fw \<Longrightarrow> rejectsPath pf p \<and> fw = (TypeError, emit (Download u p) w)"
  by (auto simp: downloadFile_def Let_def split: if_splits)

lemma downloadFile_Inr: "downloadFile pf u p w = Inr r \<Longrightarrow> \<not> rejectsPath pf p"
  by (auto simp: downloadFile_def Let_def split: if_splits)

lemma downloadFile_returns:
  "\<not> rejectsPath pf p \<Longrightarrow> \<exists>r. downloadFile pf u p w = Inr r"
  by (auto simp: downloadFile_def Let_def)

lemma downloadFile_dirs: "downloadFile pf u p w = Inr r \<Longrightarrow> dirs (fst r) = dirs w"
  by (auto simp: downloadFile_def Let_def fetchAndWrite_dirs emit_simps split: if_splits)

lemma downloadFile_files: "downloadFile pf u p w = Inr r \<Longrightarrow> files w \<subseteq>\<^sub>m files (fst r)"
proof -
  assume d: "downloadFile pf u p w = Inr r"
  then have nr: "\<not> rejectsPath pf p" by (rule downloadFile_Inr)
  show ?thesis
  proof (cases "files w p")
    case None
    from fetchAndWrite_files[of "emit (Download u p) w" p pf u] d nr None
    show ?thesis by (auto simp: downloadFile_absent emit_simps)
  next
    case (Some c)
    then have "p \<in> dom (files w)" by blast
    with d nr show ?thesis by (auto simp: downloadFile_existing emit_simps)
  qed
qed

lemma downloadFile_trace:
  "downloadFile pf u p w = Inr r \<Longrightarrow>
   \<exists>es. trace (fst r) = trace w @ Download u p # es \<and> (\<forall>u' p'. Download u' p' \<notin> set es)"
proof -
  assume d: "downloadFile pf u p w = Inr r"
  then have nr: "\<not> rejectsPath pf p" by (rule downloadFile_Inr)
  show ?thesis
  proof (cases "files w p")
    case None
    from fetchAndWrite_trace[of pf u p "emit (Download u p) w"] d nr None
    show ?thesis by (auto simp: downloadFile_absent emit_simps)
  next
    case (Some c)
    then have "p \<in> dom (files w)" by blast
    with d nr show ?thesis by (auto simp: downloadFile_existing emit_simps)
  qed
qed

text \<open>
  Claim C4. Where a file exists at the destination, whatever its contents (a file of
  zero bytes too), \<^verbatim>\<open>downloadFile\<close> returns true, sends no request to the network (the
  call itself is the only event it adds) and leaves every file and directory as it
  was. The destination is one the runtime accepts, as a path that holds a file is.
\<close>

theorem downloadFile_skips_existing:
  "files w targetPath = Some c \<Longrightarrow> \<not> rejectsPath pf targetPath \<Longrightarrow>
   (\<exists>w'. downloadFile pf u targetPath w = Inr (w', True)
      \<and> trace w' = trace w @ [Download u targetPath]
      \<and> \<not> (\<exists>u'. Get u' \<in> set (drop (length (trace w)) (trace w')))
      \<and> files w' = files w
      \<and> dirs w' = dirs w)"
proof -
  assume "files w targetPath = Some c" and nr: "\<not> rejectsPath pf targetPath"
  then have "targetPath \<in> dom (files w)" by blast
  with nr have "downloadFile pf u targetPath w = Inr (emit (Download u targetPath) w, True)"
    by (rule downloadFile_existing)
  then show ?thesis by (simp add: emit_simps)
qed

theorem downloadFile_skips_existing_witness:
  "downloadFile (posix serving never) (js ''http://h/x.pdf'') (js ''AIP/x.pdf'')
      (worldWithEmptyFile (js ''AIP/x.pdf''))
    = Inr (\<lparr>dirs = {}, files = [js ''AIP/x.pdf'' \<mapsto> []],
            trace = [Download (js ''http://h/x.pdf'') (js ''AIP/x.pdf'')]\<rparr>, True)
   \<and> \<not> rejectsPath (posix serving never) (js ''AIP/x.pdf'')"
  using downloadFile_skips_existing[of "worldWithEmptyFile (js ''AIP/x.pdf'')"
      "js ''AIP/x.pdf''" "[]" "posix serving never" "js ''http://h/x.pdf''"]
  by (simp add: worldWithEmptyFile_def eval_defs)

section \<open>The walk, step by step\<close>

lemma processItem_unfold:
  "processItem pf item cur base w =
     (if mkdirFails pf cur then Inr (emit (MkdirError cur) w)
      else case processDocument pf item cur base (created cur w) of
             Inl fw \<Rightarrow> Inl fw
           | Inr w2 \<Rightarrow> processMenuItems pf (childList item) (itemPath pf cur item) base w2)"
  by (cases item) (auto simp: childList_def split: sum.splits option.splits)

lemma walk_induct [consumes 0, case_names Nil Cons Item]:
  assumes nil: "\<And>cur w. P [] cur w"
    and cons: "\<And>item items cur w.
        Q item cur w \<Longrightarrow>
        (\<And>wa. processItem pf item cur base w = Inr wa \<Longrightarrow> P items cur wa) \<Longrightarrow>
        P (item # items) cur w"
    and item: "\<And>item cur w.
        (\<And>w2. \<not> mkdirFails pf cur \<Longrightarrow>
           processDocument pf item cur base (created cur w) = Inr w2 \<Longrightarrow>
           P (childList item) (itemPath pf cur item) w2) \<Longrightarrow>
        Q item cur w"
  shows "P ns cur w" and "Q n cur w"
proof -
  have "(pf' = pf \<longrightarrow> base' = base \<longrightarrow> P ns cur w)"
   and "(pf'' = pf \<longrightarrow> base'' = base \<longrightarrow> Q n cur w)" for pf' base' pf'' base''
  proof (induction pf' ns cur base' w and pf'' n cur base'' w
      rule: processMenuItems_processItem.induct)
    case (1 pf cur base w)
    show ?case using nil by simp
  next
    case (2 pf item items cur base w)
    show ?case using cons "2.IH" by blast
  next
    case (3 pf' t h cso cur base' w)
    show ?case
    proof (intro impI)
      assume e: "pf' = pf" "base' = base"
      show "Q (MenuNode t h cso) cur w"
      proof (rule item)
        fix w2
        assume m: "\<not> mkdirFails pf cur"
          and d: "processDocument pf (MenuNode t h cso) cur base (created cur w) = Inr w2"
        show "P (childList (MenuNode t h cso)) (itemPath pf cur (MenuNode t h cso)) w2"
        proof (cases "\<exists>cs. cso = Some cs \<and> 0 < length cs")
          case True
          then obtain cs where cs: "cso = Some cs" "0 < length cs" by blast
          from "3.IH"[of w2 cs] m d cs e show ?thesis by (simp add: childList_def)
        next
          case False
          then have "childList (MenuNode t h cso) = []"
            by (cases cso) (auto simp: childList_def)
          then show ?thesis using nil by simp
        qed
      qed
    qed
  qed
  from this(1)[of pf base] this(2)[of pf base] show "P ns cur w" and "Q n cur w" by simp_all
qed


lemma createdDirsItem_unfold:
  "createdDirsItem pf item cur =
     (if mkdirFails pf cur then {}
      else insert cur (createdDirs pf (childList item) (itemPath pf cur item)))"
  by (cases item) (auto simp: childList_def split: option.splits)

lemma noFaultItem_unfold:
  "noFaultItem pf base item cur \<longleftrightarrow>
     mkdirFails pf cur \<or>
     (documentOk pf base item cur \<and> noFault pf base (childList item) (itemPath pf cur item))"
  by (cases item) (auto simp: childList_def split: option.splits)

lemma nodePathsItem_unfold:
  "nodePathsItem pf item cur =
     (item, itemPath pf cur item) # nodePaths pf (childList item) (itemPath pf cur item)"
  by (cases item) (auto simp: childList_def split: option.splits)

lemma processDocument_Inr_cases:
  assumes "processDocument pf item cur base w = Inr w'"
  shows "w' = w \<or>
    (\<exists>b u cs r. pdfBaseName item = Some b \<and> pdfUrl pf base b = Inr u \<and> children item = Some cs
       \<and> \<not> hasDuplicateInSubtree (the (href item)) cs
       \<and> downloadFile pf u (pdfTargetPath pf cur item cs) w = Inr r \<and> w' = fst r)"
proof (cases "pdfBaseName item")
  case None
  with assms show ?thesis by (simp add: processDocument_def)
next
  case (Some b)
  with assms obtain u cs where u: "pdfUrl pf base b = Inr u" and cs: "children item = Some cs"
    by (auto simp: processDocument_def split: sum.splits option.splits)
  show ?thesis
  proof (cases "hasDuplicateInSubtree (the (href item)) cs")
    case True
    with assms Some u cs show ?thesis by (simp add: processDocument_def)
  next
    case False
    with assms Some u cs obtain r where
      "downloadFile pf u (pdfTargetPath pf cur item cs) w = Inr r" "w' = fst r"
      by (auto simp: processDocument_def split: sum.splits)
    with Some u cs False show ?thesis by blast
  qed
qed

lemma processDocument_dirs:
  "processDocument pf item cur base w = Inr w' \<Longrightarrow> dirs w' = dirs w"
  using processDocument_Inr_cases[of pf item cur base w w'] downloadFile_dirs by blast

lemma processDocument_files:
  "processDocument pf item cur base w = Inr w' \<Longrightarrow> files w \<subseteq>\<^sub>m files w'"
  using processDocument_Inr_cases[of pf item cur base w w'] downloadFile_files by fastforce

lemma processDocument_trace:
  "processDocument pf item cur base w = Inr w' \<Longrightarrow> \<exists>es. trace w' = trace w @ es"
proof -
  assume "processDocument pf item cur base w = Inr w'"
  from processDocument_Inr_cases[OF this] show ?thesis
  proof
    assume "w' = w"
    then show ?thesis by simp
  next
    assume "\<exists>b u cs r. pdfBaseName item = Some b \<and> pdfUrl pf base b = Inr u \<and> children item = Some cs
       \<and> \<not> hasDuplicateInSubtree (the (href item)) cs
       \<and> downloadFile pf u (pdfTargetPath pf cur item cs) w = Inr r \<and> w' = fst r"
    then obtain u cs r where "downloadFile pf u (pdfTargetPath pf cur item cs) w = Inr r" "w' = fst r"
      by blast
    with downloadFile_trace[of pf u "pdfTargetPath pf cur item cs" w r] show ?thesis by auto
  qed
qed

lemma processDocument_completes:
  "(\<exists>w'. processDocument pf item cur base w = Inr w') \<longleftrightarrow> documentOk pf base item cur"
proof (cases "pdfBaseName item")
  case None
  then show ?thesis by (simp add: processDocument_def documentOk_def)
next
  case (Some b)
  show ?thesis
  proof (cases "pdfUrl pf base b")
    case (Inl f)
    with Some show ?thesis by (simp add: processDocument_def documentOk_def)
  next
    case (Inr u)
    show ?thesis
    proof (cases "children item")
      case None
      with Some Inr show ?thesis by (simp add: processDocument_def documentOk_def)
    next
      case cs: (Some cs)
      show ?thesis
      proof (cases "hasDuplicateInSubtree (the (href item)) cs")
        case True
        with Some Inr cs show ?thesis by (simp add: processDocument_def documentOk_def)
      next
        case False
        let ?p = "pdfTargetPath pf cur item cs"
        have "(\<exists>r. downloadFile pf u ?p w = Inr r) \<longleftrightarrow> \<not> rejectsPath pf ?p"
          using downloadFile_Inr downloadFile_returns by blast
        with Some Inr cs False show ?thesis
          by (auto simp: processDocument_def documentOk_def split: sum.splits)
      qed
    qed
  qed
qed

lemma walk_dirs:
  "processMenuItems pf ns cur base w = Inr w' \<Longrightarrow> dirs w' = dirs w \<union> createdDirs pf ns cur"
  "processItem pf n cur base w = Inr w' \<Longrightarrow> dirs w' = dirs w \<union> createdDirsItem pf n cur"
proof (induction ns cur w and n cur w arbitrary: w' and w' rule: walk_induct[where pf=pf and base=base])
  case (Nil cur w)
  then show ?case by simp
next
  case (Cons item items cur w)
  from Cons.prems obtain wa where a: "processItem pf item cur base w = Inr wa"
    and b: "processMenuItems pf items cur base wa = Inr w'"
    by (auto split: sum.splits)
  show ?case using Cons.IH(1)[OF a] Cons.IH(2)[OF a b] by auto
next
  case (Item item cur w)
  show ?case
  proof (cases "mkdirFails pf cur")
    case True
    with Item.prems show ?thesis
      by (simp add: processItem_unfold createdDirsItem_unfold emit_simps[symmetric])
         (auto simp: emit_simps)
  next
    case False
    with Item.prems obtain w2 where
      d: "processDocument pf item cur base (created cur w) = Inr w2"
      and r: "processMenuItems pf (childList item) (itemPath pf cur item) base w2 = Inr w'"
      by (auto simp: processItem_unfold split: sum.splits)
    from Item.IH[OF False d r] processDocument_dirs[OF d] False
    show ?thesis by (auto simp: createdDirsItem_unfold created_simps)
  qed
qed

lemma walk_files:
  "processMenuItems pf ns cur base w = Inr w' \<Longrightarrow> files w \<subseteq>\<^sub>m files w'"
  "processItem pf n cur base w = Inr w' \<Longrightarrow> files w \<subseteq>\<^sub>m files w'"
proof (induction ns cur w and n cur w arbitrary: w' and w' rule: walk_induct[where pf=pf and base=base])
  case (Nil cur w)
  then show ?case by simp
next
  case (Cons item items cur w)
  from Cons.prems obtain wa where a: "processItem pf item cur base w = Inr wa"
    and b: "processMenuItems pf items cur base wa = Inr w'"
    by (auto split: sum.splits)
  show ?case using Cons.IH(1)[OF a] Cons.IH(2)[OF a b] by (rule map_le_trans)
next
  case (Item item cur w)
  show ?case
  proof (cases "mkdirFails pf cur")
    case True
    with Item.prems show ?thesis
      by (auto simp: processItem_unfold emit_simps)
  next
    case False
    with Item.prems obtain w2 where
      d: "processDocument pf item cur base (created cur w) = Inr w2"
      and r: "processMenuItems pf (childList item) (itemPath pf cur item) base w2 = Inr w'"
      by (auto simp: processItem_unfold split: sum.splits)
    from processDocument_files[OF d] have "files w \<subseteq>\<^sub>m files w2" by (simp add: created_simps)
    then show ?thesis using Item.IH[OF False d r] by (rule map_le_trans)
  qed
qed

lemma walk_trace:
  "processMenuItems pf ns cur base w = Inr w' \<Longrightarrow> \<exists>es. trace w' = trace w @ es"
  "processItem pf n cur base w = Inr w' \<Longrightarrow> \<exists>es. trace w' = trace w @ es"
proof (induction ns cur w and n cur w arbitrary: w' and w' rule: walk_induct[where pf=pf and base=base])
  case (Nil cur w)
  then show ?case by simp
next
  case (Cons item items cur w)
  from Cons.prems obtain wa where a: "processItem pf item cur base w = Inr wa"
    and b: "processMenuItems pf items cur base wa = Inr w'"
    by (auto split: sum.splits)
  show ?case using Cons.IH(1)[OF a] Cons.IH(2)[OF a b] by auto
next
  case (Item item cur w)
  show ?case
  proof (cases "mkdirFails pf cur")
    case True
    with Item.prems show ?thesis
      by (auto simp: processItem_unfold emit_simps)
  next
    case False
    with Item.prems obtain w2 where
      d: "processDocument pf item cur base (created cur w) = Inr w2"
      and r: "processMenuItems pf (childList item) (itemPath pf cur item) base w2 = Inr w'"
      by (auto simp: processItem_unfold split: sum.splits)
    from processDocument_trace[OF d] Item.IH[OF False d r]
    show ?thesis by (auto simp: created_simps)
  qed
qed

lemma walk_completes:
  "(\<exists>w'. processMenuItems pf ns cur base w = Inr w') \<longleftrightarrow> noFault pf base ns cur"
  "(\<exists>w'. processItem pf n cur base w = Inr w') \<longleftrightarrow> noFaultItem pf base n cur"
proof (induction ns cur w and n cur w rule: walk_induct[where pf=pf and base=base])
  case (Nil cur w)
  then show ?case by simp
next
  case (Cons item items cur w)
  show ?case
  proof (cases "processItem pf item cur base w")
    case (Inl fw)
    with Cons.IH(1) show ?thesis by auto
  next
    case (Inr wa)
    with Cons.IH(1) Cons.IH(2)[OF Inr] show ?thesis by auto
  qed
next
  case (Item item cur w)
  show ?case
  proof (cases "mkdirFails pf cur")
    case True
    then show ?thesis by (simp add: processItem_unfold noFaultItem_unfold)
  next
    case False
    show ?thesis
    proof (cases "processDocument pf item cur base (created cur w)")
      case (Inl fw)
      then have "\<not> documentOk pf base item cur"
        using processDocument_completes[of pf item cur base "created cur w"] by auto
      with Inl False show ?thesis by (simp add: processItem_unfold noFaultItem_unfold)
    next
      case (Inr w2)
      then have "documentOk pf base item cur"
        using processDocument_completes[of pf item cur base "created cur w"] by auto
      with Inr False Item.IH[OF False Inr] show ?thesis
        by (simp add: processItem_unfold noFaultItem_unfold)
    qed
  qed
qed

lemma processDocument_no_base:
  "pdfBaseName item = None \<Longrightarrow> processDocument pf item cur base w = Inr w"
  by (simp add: processDocument_def)

lemma processDocument_download:
  "pdfBaseName item = Some b \<Longrightarrow> pdfUrl pf base b = Inr u \<Longrightarrow> children item = Some cs \<Longrightarrow>
   \<not> hasDuplicateInSubtree (the (href item)) cs \<Longrightarrow>
   processDocument pf item cur base w =
     (case downloadFile pf u (pdfTargetPath pf cur item cs) w of
        Inl fw \<Rightarrow> Inl fw
      | Inr r \<Rightarrow> Inr (fst r))"
  by (simp add: processDocument_def)

lemma processDocument_dedup:
  "pdfBaseName item = Some b \<Longrightarrow> pdfUrl pf base b = Inr u \<Longrightarrow> children item = Some cs \<Longrightarrow>
   hasDuplicateInSubtree (the (href item)) cs \<Longrightarrow>
   processDocument pf item cur base w = Inr w"
  by (simp add: processDocument_def)

lemma processDocument_no_children:
  "pdfBaseName item = Some b \<Longrightarrow> pdfUrl pf base b = Inr u \<Longrightarrow> children item = None \<Longrightarrow>
   processDocument pf item cur base w = Inl (TypeError, w)"
  by (simp add: processDocument_def)

lemma newEvents_self: "newEvents w w = []"
  by (simp add: newEvents_def)

lemma newEvents_append: "trace w' = trace w @ es \<Longrightarrow> newEvents w w' = es"
  by (simp add: newEvents_def)

lemma newEvents_downloadFile:
  "downloadFile pf u p w = Inr r \<Longrightarrow>
   \<exists>es. newEvents w (fst r) = Download u p # es \<and> (\<forall>u' p'. Download u' p' \<notin> set es)"
  using downloadFile_trace[of pf u p w r] by (auto simp: newEvents_def)

lemma outcomeWorld_simps:
  "outcomeWorld (Inl (f, w)) = w"
  "outcomeWorld (Inr w) = w"
  by (simp_all add: outcomeWorld_def)

lemma processDocument_events:
  "newEvents w (outcomeWorld (processDocument pf item cur base w)) = [] \<or>
   (\<exists>cs u es. children item = Some cs
      \<and> newEvents w (outcomeWorld (processDocument pf item cur base w))
          = Download u (pdfTargetPath pf cur item cs) # es
      \<and> (\<forall>u' p'. Download u' p' \<notin> set es))"
proof (cases "pdfBaseName item")
  case None
  then show ?thesis by (simp add: processDocument_no_base newEvents_self outcomeWorld_simps)
next
  case (Some b)
  show ?thesis
  proof (cases "pdfUrl pf base b")
    case (Inl f)
    with Some show ?thesis
      by (simp add: processDocument_def newEvents_self outcomeWorld_simps)
  next
    case (Inr u)
    show ?thesis
    proof (cases "children item")
      case None
      with Some Inr show ?thesis
        by (simp add: processDocument_no_children newEvents_self outcomeWorld_simps)
    next
      case cs: (Some cs)
      show ?thesis
      proof (cases "hasDuplicateInSubtree (the (href item)) cs")
        case True
        with Some Inr cs show ?thesis
          by (simp add: processDocument_dedup newEvents_self outcomeWorld_simps)
      next
        case False
        let ?p = "pdfTargetPath pf cur item cs"
        note pd = processDocument_download[OF Some Inr cs False, of cur w]
        show ?thesis
        proof (cases "downloadFile pf u ?p w")
          case (Inl fw)
          from downloadFile_Inl[OF Inl] pd Inl
          have "newEvents w (outcomeWorld (processDocument pf item cur base w)) = Download u ?p # []"
            by (simp add: outcomeWorld_simps newEvents_def emit_simps)
          with cs show ?thesis by auto
        next
          case r: (Inr r)
          from newEvents_downloadFile[OF r] pd r cs show ?thesis
            by (auto simp: outcomeWorld_simps)
        qed
      qed
    qed
  qed
qed

section \<open>The claims about the walker\<close>

text \<open>
  Claim C6. Where \<^verbatim>\<open>mkdir\<close> fails for an item, the walker skips the item: the failure
  is its only event, so no download is attempted and no descendant is visited, no file
  or directory changes, and the loop goes on with the later siblings.
\<close>

theorem mkdir_failure_skips_item:
  "mkdirFails pf cur \<Longrightarrow>
   (\<exists>w'. processItem pf item cur base w = Inr w'
      \<and> newEvents w w' = [MkdirError cur]
      \<and> files w' = files w \<and> dirs w' = dirs w
      \<and> processMenuItems pf (item # items) cur base w = processMenuItems pf items cur base w')"
  by (simp add: processItem_unfold newEvents_def emit_simps)

theorem mkdir_failure_skips_item_witness:
  "processMenuItems (posix serving always)
     [branch ''GEN'' ''gen-pl-PL.html'' [leaf ''GEN 1'' ''gen1-pl-PL.html''], leaf ''ENR'' ''enr-pl-PL.html'']
     (js ''AIP'') (js ''http://h/PDF/'') emptyWorld
   = Inr \<lparr>dirs = {}, files = Map.empty, trace = [MkdirError (js ''AIP''), MkdirError (js ''AIP'')]\<rparr>"
  using mkdir_failure_skips_item[of "posix serving always" "js ''AIP''"
      "branch ''GEN'' ''gen-pl-PL.html'' [leaf ''GEN 1'' ''gen1-pl-PL.html'']" "js ''http://h/PDF/''"
      emptyWorld "[leaf ''ENR'' ''enr-pl-PL.html'']"]
  by (simp add: eval_defs)

text \<open>
  Claim C3. Every call of \<^verbatim>\<open>downloadFile\<close> made for an item, whether the call
  returns or throws, has the destination that the item's children decide:
  \<open>itemPath/label.pdf\<close> where the item has a child, \<open>itemPath.pdf\<close> where it has none.
  An item with a base name, a URL, a \<^verbatim>\<open>children\<close> field and no child repeating its
  reference is downloaded to that path: the call is the first event of its document
  step, and the step returns where the runtime accepts the path.
\<close>

theorem document_path_by_children:
  "(processDocument pf item cur base w = Inr w' \<longrightarrow> Download u p \<in> set (newEvents w w') \<longrightarrow>
      (\<exists>cs. children item = Some cs
         \<and> (cs \<noteq> [] \<longrightarrow> p = itemPath pf cur item @ js ''/'' @ sanitizedItemTitle item @ js ''.pdf'')
         \<and> (cs = [] \<longrightarrow> p = itemPath pf cur item @ js ''.pdf'')))
   \<and> (processDocument pf item cur base w = Inl (f, w') \<longrightarrow> Download u p \<in> set (newEvents w w') \<longrightarrow>
      (\<exists>cs. children item = Some cs
         \<and> (cs \<noteq> [] \<longrightarrow> p = itemPath pf cur item @ js ''/'' @ sanitizedItemTitle item @ js ''.pdf'')
         \<and> (cs = [] \<longrightarrow> p = itemPath pf cur item @ js ''.pdf'')))
   \<and> (pdfBaseName item = Some b \<longrightarrow> pdfUrl pf base b = Inr u \<longrightarrow> children item = Some cs \<longrightarrow>
        \<not> hasDuplicateInSubtree (the (href item)) cs \<longrightarrow>
      (\<exists>es. newEvents w (outcomeWorld (processDocument pf item cur base w)) =
         Download u (if cs \<noteq> [] then itemPath pf cur item @ js ''/'' @ sanitizedItemTitle item @ js ''.pdf''
                     else itemPath pf cur item @ js ''.pdf'') # es)
      \<and> (\<not> rejectsPath pf (if cs \<noteq> [] then itemPath pf cur item @ js ''/'' @ sanitizedItemTitle item @ js ''.pdf''
                               else itemPath pf cur item @ js ''.pdf'') \<longrightarrow>
          (\<exists>w'. processDocument pf item cur base w = Inr w')))"
proof -
  have shape: "\<exists>cs. children item = Some cs
         \<and> (cs \<noteq> [] \<longrightarrow> p = itemPath pf cur item @ js ''/'' @ sanitizedItemTitle item @ js ''.pdf'')
         \<and> (cs = [] \<longrightarrow> p = itemPath pf cur item @ js ''.pdf'')"
    if e: "Download u p \<in> set (newEvents w (outcomeWorld (processDocument pf item cur base w)))"
  proof -
    from processDocument_events[of w pf item cur base] e obtain cs u' es where
      cs: "children item = Some cs"
      and n: "newEvents w (outcomeWorld (processDocument pf item cur base w))
                = Download u' (pdfTargetPath pf cur item cs) # es"
      and es: "\<forall>u' p'. Download u' p' \<notin> set es"
      by auto
    from e n es have "p = pdfTargetPath pf cur item cs" by auto
    with cs show ?thesis by (simp add: pdfTargetPath_def)
  qed
  have one: "processDocument pf item cur base w = Inr w' \<longrightarrow> Download u p \<in> set (newEvents w w') \<longrightarrow>
      (\<exists>cs. children item = Some cs
         \<and> (cs \<noteq> [] \<longrightarrow> p = itemPath pf cur item @ js ''/'' @ sanitizedItemTitle item @ js ''.pdf'')
         \<and> (cs = [] \<longrightarrow> p = itemPath pf cur item @ js ''.pdf''))"
    using shape by (simp add: outcomeWorld_simps)
  have two: "processDocument pf item cur base w = Inl (f, w') \<longrightarrow> Download u p \<in> set (newEvents w w') \<longrightarrow>
      (\<exists>cs. children item = Some cs
         \<and> (cs \<noteq> [] \<longrightarrow> p = itemPath pf cur item @ js ''/'' @ sanitizedItemTitle item @ js ''.pdf'')
         \<and> (cs = [] \<longrightarrow> p = itemPath pf cur item @ js ''.pdf''))"
    using shape by (simp add: outcomeWorld_simps)
  have three: "(\<exists>es. newEvents w (outcomeWorld (processDocument pf item cur base w)) =
         Download u (if cs \<noteq> [] then itemPath pf cur item @ js ''/'' @ sanitizedItemTitle item @ js ''.pdf''
                     else itemPath pf cur item @ js ''.pdf'') # es)
      \<and> (\<not> rejectsPath pf (if cs \<noteq> [] then itemPath pf cur item @ js ''/'' @ sanitizedItemTitle item @ js ''.pdf''
                               else itemPath pf cur item @ js ''.pdf'') \<longrightarrow>
          (\<exists>w'. processDocument pf item cur base w = Inr w'))"
    if a: "pdfBaseName item = Some b" "pdfUrl pf base b = Inr u" "children item = Some cs"
      "\<not> hasDuplicateInSubtree (the (href item)) cs"
  proof -
    let ?p = "if cs \<noteq> [] then itemPath pf cur item @ js ''/'' @ sanitizedItemTitle item @ js ''.pdf''
              else itemPath pf cur item @ js ''.pdf''"
    have p: "pdfTargetPath pf cur item cs = ?p" by (simp add: pdfTargetPath_def)
    note pd = processDocument_download[OF a, of cur w]
    have ev: "\<exists>es. newEvents w (outcomeWorld (processDocument pf item cur base w)) = Download u ?p # es"
    proof (cases "downloadFile pf u ?p w")
      case (Inl fw)
      from downloadFile_Inl[OF Inl] pd Inl p show ?thesis
        by (simp add: outcomeWorld_simps newEvents_def emit_simps)
    next
      case (Inr r)
      from newEvents_downloadFile[OF Inr] pd Inr p show ?thesis
        by (auto simp: outcomeWorld_simps)
    qed
    have ret: "\<exists>w'. processDocument pf item cur base w = Inr w'" if "\<not> rejectsPath pf ?p"
      using downloadFile_returns[OF that, of u w] pd p by auto
    from ev ret show ?thesis by blast
  qed
  from one two three show ?thesis by blast
qed

theorem document_path_by_children_witness:
  "processDocument (posix serving never) (branch ''GEN'' ''gen-pl-PL.html'' [leaf ''GEN 1'' ''gen1-pl-PL.html''])
      (js ''AIP'') (js ''http://h/PDF/'') emptyWorld
    = Inr \<lparr>dirs = {}, files = [js ''AIP/GEN/GEN.pdf'' \<mapsto> bytes ''%PDF''],
           trace = [Download (js ''http://h/PDF/gen.pdf'') (js ''AIP/GEN/GEN.pdf''),
                    Get (js ''http://h/PDF/gen.pdf''), Saved (js ''AIP/GEN/GEN.pdf'')]\<rparr>
   \<and> processDocument (posix serving never) (leaf ''GEN 1'' ''gen1-pl-PL.html'')
      (js ''AIP/GEN'') (js ''http://h/PDF/'') emptyWorld
    = Inr \<lparr>dirs = {}, files = [js ''AIP/GEN/GEN 1.pdf'' \<mapsto> bytes ''%PDF''],
           trace = [Download (js ''http://h/PDF/gen1.pdf'') (js ''AIP/GEN/GEN 1.pdf''),
                    Get (js ''http://h/PDF/gen1.pdf''), Saved (js ''AIP/GEN/GEN 1.pdf'')]\<rparr>
   \<and> processDocument (posix serving never) (nulLeaf ''a-pl-PL.html'')
      (js ''AIP'') (js ''http://h/PDF/'') emptyWorld
    = Inl (TypeError, \<lparr>dirs = {}, files = Map.empty,
           trace = [Download (js ''http://h/PDF/a.pdf'') (js ''AIP/'' @ [0x41, 0] @ js ''.pdf'')]\<rparr>)"
proof -
  let ?pf = "posix serving never"
  let ?base = "js ''http://h/PDF/''"
  let ?c = "leaf ''GEN 1'' ''gen1-pl-PL.html''"
  let ?n = "branch ''GEN'' ''gen-pl-PL.html'' [?c]"
  let ?z = "nulLeaf ''a-pl-PL.html''"
  have a: "processDocument ?pf ?n (js ''AIP'') ?base emptyWorld
    = Inr \<lparr>dirs = {}, files = [js ''AIP/GEN/GEN.pdf'' \<mapsto> bytes ''%PDF''],
           trace = [Download (js ''http://h/PDF/gen.pdf'') (js ''AIP/GEN/GEN.pdf''),
                    Get (js ''http://h/PDF/gen.pdf''), Saved (js ''AIP/GEN/GEN.pdf'')]\<rparr>"
    by (simp add: eval_defs)
  have b: "processDocument ?pf ?c (js ''AIP/GEN'') ?base emptyWorld
    = Inr \<lparr>dirs = {}, files = [js ''AIP/GEN/GEN 1.pdf'' \<mapsto> bytes ''%PDF''],
           trace = [Download (js ''http://h/PDF/gen1.pdf'') (js ''AIP/GEN/GEN 1.pdf''),
                    Get (js ''http://h/PDF/gen1.pdf''), Saved (js ''AIP/GEN/GEN 1.pdf'')]\<rparr>"
    by (simp add: eval_defs)
  have z: "pdfBaseName ?z = Some (js ''a'')" "pdfUrl ?pf ?base (js ''a'') = Inr (js ''http://h/PDF/a.pdf'')"
    "children ?z = Some []" "\<not> hasDuplicateInSubtree (the (href ?z)) []"
    by (simp_all add: eval_defs nulLeaf_def)
  have zp: "itemPath ?pf (js ''AIP'') ?z @ js ''.pdf'' = js ''AIP/'' @ [0x41, 0] @ js ''.pdf''"
    by (simp add: eval_defs nulLeaf_def)
  have zf: "\<exists>fw. processDocument ?pf ?z (js ''AIP'') ?base emptyWorld = Inl (TypeError, fw)"
    by (simp add: eval_defs nulLeaf_def)
  from document_path_by_children[where pf = ?pf and item = ?z and cur = "js ''AIP''" and base = ?base
      and w = emptyWorld and b = "js ''a''" and u = "js ''http://h/PDF/a.pdf''" and cs = "[]"] z
  have "\<exists>es. newEvents emptyWorld (outcomeWorld (processDocument ?pf ?z (js ''AIP'') ?base emptyWorld))
      = Download (js ''http://h/PDF/a.pdf'') (itemPath ?pf (js ''AIP'') ?z @ js ''.pdf'') # es"
    by simp
  then have c: "processDocument ?pf ?z (js ''AIP'') ?base emptyWorld
    = Inl (TypeError, \<lparr>dirs = {}, files = Map.empty,
           trace = [Download (js ''http://h/PDF/a.pdf'') (js ''AIP/'' @ [0x41, 0] @ js ''.pdf'')]\<rparr>)"
    unfolding zp by (simp add: eval_defs nulLeaf_def)
  from a b c show ?thesis by simp
qed

text \<open>
  Claim C10. An item whose reference gives a base name and a URL but that has no
  \<^verbatim>\<open>children\<close> field makes the walk throw a \<^verbatim>\<open>TypeError\<close>, and the later siblings are
  never processed; an absent field is tolerated only where the item has no document.
  A walk returns only where every item it visits that has a base name has a URL and a
  \<^verbatim>\<open>children\<close> field and, where it is downloaded, a destination that the runtime
  accepts.
\<close>

theorem absent_children_field_faults:
  "(pdfBaseName item = Some b \<longrightarrow> pdfUrl pf base b = Inr u \<longrightarrow> children item = None \<longrightarrow>
      \<not> mkdirFails pf cur \<longrightarrow>
      processMenuItems pf (item # items) cur base w = Inl (TypeError, created cur w))
   \<and> (pdfBaseName item = None \<longrightarrow> children item = None \<longrightarrow> \<not> mkdirFails pf cur \<longrightarrow>
      processItem pf item cur base w = Inr (created cur w))
   \<and> ((\<exists>w'. processMenuItems pf ns cur base w = Inr w') \<longrightarrow> noFault pf base ns cur)"
proof (intro conjI impI)
  assume "pdfBaseName item = Some b" "pdfUrl pf base b = Inr u" "children item = None"
    "\<not> mkdirFails pf cur"
  then show "processMenuItems pf (item # items) cur base w = Inl (TypeError, created cur w)"
    by (simp add: processItem_unfold processDocument_no_children)
next
  assume "pdfBaseName item = None" "children item = None" "\<not> mkdirFails pf cur"
  then show "processItem pf item cur base w = Inr (created cur w)"
    by (simp add: processItem_unfold processDocument_no_base childList_def)
next
  assume "\<exists>w'. processMenuItems pf ns cur base w = Inr w'"
  then show "noFault pf base ns cur"
    using walk_completes(1)[of pf ns cur base w] by blast
qed

theorem absent_children_field_faults_witness:
  "processMenuItems (posix serving never) [bare ''A'' ''a-pl-PL.html'', leaf ''B'' ''b-pl-PL.html'']
      (js ''AIP'') (js ''http://h/PDF/'') emptyWorld
    = Inl (TypeError, \<lparr>dirs = {js ''AIP''}, files = Map.empty, trace = [MkdirOk (js ''AIP'')]\<rparr>)
   \<and> \<not> noFault (posix serving never) (js ''http://h/PDF/'')
        [bare ''A'' ''a-pl-PL.html'', leaf ''B'' ''b-pl-PL.html''] (js ''AIP'')
   \<and> noFault (posix serving never) (js ''http://h/PDF/'') [folder ''A'' []] (js ''AIP'')"
proof -
  let ?pf = "posix serving never"
  let ?base = "js ''http://h/PDF/''"
  let ?a = "bare ''A'' ''a-pl-PL.html''"
  let ?b = "leaf ''B'' ''b-pl-PL.html''"
  have h: "pdfBaseName ?a = Some (js ''a'')" "pdfUrl ?pf ?base (js ''a'') = Inr (js ''http://h/PDF/a.pdf'')"
    "children ?a = None" "\<not> mkdirFails ?pf (js ''AIP'')"
    by (simp_all add: eval_defs bare_def)
  note t = absent_children_field_faults[where pf = ?pf and base = ?base and cur = "js ''AIP''"
      and w = emptyWorld]
  from t[where item = ?a and b = "js ''a''" and u = "js ''http://h/PDF/a.pdf''" and items = "[?b]"] h
  have "processMenuItems ?pf [?a, ?b] (js ''AIP'') ?base emptyWorld
      = Inl (TypeError, created (js ''AIP'') emptyWorld)"
    by simp
  then have one: "processMenuItems ?pf [?a, ?b] (js ''AIP'') ?base emptyWorld
      = Inl (TypeError, \<lparr>dirs = {js ''AIP''}, files = Map.empty, trace = [MkdirOk (js ''AIP'')]\<rparr>)"
    by (simp add: created_def emit_def emptyWorld_def)
  have two: "\<not> noFault ?pf ?base [?a, ?b] (js ''AIP'')"
    by (simp add: eval_defs bare_def documentOk_def)
  have run: "processMenuItems ?pf [folder ''A'' []] (js ''AIP'') ?base emptyWorld
      = Inr \<lparr>dirs = {js ''AIP''}, files = Map.empty, trace = [MkdirOk (js ''AIP'')]\<rparr>"
    by (simp add: eval_defs)
  from t[where ns = "[folder ''A'' []]"] run
  have three: "noFault ?pf ?base [folder ''A'' []] (js ''AIP'')"
    by simp
  from one two three show ?thesis by simp
qed








section \<open>Directories and the order of siblings\<close>

lemma plannedDownloadsItem_unfold:
  "plannedDownloadsItem pf base item cur =
     (if mkdirFails pf cur then []
      else plannedDocument pf base item cur @
           plannedDownloads pf base (childList item) (itemPath pf cur item))"
  by (cases item) (auto simp: childList_def split: option.splits)

lemma itemPath_title: "title n = title n' \<Longrightarrow> itemPath pf cur n = itemPath pf cur n'"
  by (simp add: itemPath_def sanitizedItemTitle_def itemTitle_def)

lemma siblingPerm_hrefs: "siblingPerm ns ns' \<Longrightarrow> href ` set ns = href ` set ns'"
  by (induction rule: siblingPerm.induct) auto

lemma siblingPerm_Nil: "siblingPerm ns ns' \<Longrightarrow> ns = [] \<longleftrightarrow> ns' = []"
  by (induction rule: siblingPerm.induct) auto

lemma hasDuplicate_hrefs:
  "href ` set cs = href ` set cs' \<Longrightarrow> hasDuplicateInSubtree h cs = hasDuplicateInSubtree h cs'"
  unfolding hasDuplicateInSubtree_def by (metis (no_types, lifting) image_iff)

lemma siblingPerm_createdDirs:
  "siblingPerm ns ns' \<Longrightarrow> createdDirs pf ns cur = createdDirs pf ns' cur"
proof (induction arbitrary: cur rule: siblingPerm.induct)
  case permNil
  show ?case by simp
next
  case (permWithin cs cs' ns ns' t h)
  have "itemPath pf cur (MenuNode t h (Some cs)) = itemPath pf cur (MenuNode t h (Some cs'))"
    by (rule itemPath_title) simp
  with permWithin.IH show ?case by simp
next
  case (permSame ns ns' n)
  then show ?case by simp
next
  case (permSwap a b ns)
  show ?case by auto
next
  case (permTrans ns ns' ns'')
  then show ?case by simp
qed

lemma pdfTargetPath_perm:
  "siblingPerm cs cs' \<Longrightarrow>
   pdfTargetPath pf cur (MenuNode t h (Some cs)) cs = pdfTargetPath pf cur (MenuNode t h (Some cs')) cs'"
  using siblingPerm_Nil[of cs cs'] itemPath_title[of "MenuNode t h (Some cs)" "MenuNode t h (Some cs')" pf cur]
  by (simp add: pdfTargetPath_def sanitizedItemTitle_def itemTitle_def)

lemma documentOk_perm:
  "siblingPerm cs cs' \<Longrightarrow>
   documentOk pf base (MenuNode t h (Some cs)) cur = documentOk pf base (MenuNode t h (Some cs')) cur"
proof -
  assume p: "siblingPerm cs cs'"
  note a = hasDuplicate_hrefs[OF siblingPerm_hrefs[OF p]]
  note b = pdfTargetPath_perm[OF p]
  show ?thesis
    by (simp add: documentOk_def pdfBaseName_def a b split: option.splits sum.splits)
qed

lemma siblingPerm_noFault:
  "siblingPerm ns ns' \<Longrightarrow> noFault pf base ns cur = noFault pf base ns' cur"
proof (induction arbitrary: cur rule: siblingPerm.induct)
  case permNil
  show ?case by simp
next
  case (permWithin cs cs' ns ns' t h)
  have "itemPath pf cur (MenuNode t h (Some cs)) = itemPath pf cur (MenuNode t h (Some cs'))"
    by (rule itemPath_title) simp
  with permWithin.IH documentOk_perm[OF permWithin.hyps(1), of pf base t h cur] show ?case by simp
next
  case (permSame ns ns' n)
  then show ?case by simp
next
  case (permSwap a b ns)
  show ?case by auto
next
  case (permTrans ns ns' ns'')
  then show ?case by simp
qed

lemma createdDirs_nodePaths:
  "\<forall>p. \<not> mkdirFails pf p \<Longrightarrow>
   createdDirs pf ns cur =
     (if ns = [] then {} else {cur}) \<union>
     {p. \<exists>n. (n, p) \<in> set (nodePaths pf ns cur) \<and> childList n \<noteq> []}"
  "\<forall>p. \<not> mkdirFails pf p \<Longrightarrow>
   createdDirsItem pf n cur =
     insert cur {p. \<exists>m. (m, p) \<in> set (nodePathsItem pf n cur) \<and> childList m \<noteq> []}"
proof (induction pf ns cur and pf n cur rule: createdDirs_createdDirsItem.induct)
  case (1 pf cur)
  show ?case by simp
next
  case (2 pf item items cur)
  then show ?case by auto
next
  case (3 pf t h cso cur)
  show ?case
  proof (cases cso)
    case None
    then show ?thesis using "3.prems" by (auto simp: childList_def)
  next
    case (Some cs)
    with "3.IH"[of cs] "3.prems" show ?thesis
      by (auto simp: childList_def)
  qed
qed

lemma itemPath_outside:
  "itemPath (pf\<lparr>remote := r, writeFails := wr\<rparr>) cur n = itemPath pf cur n"
  by (simp add: itemPath_def)

lemma pdfUrl_outside: "pdfUrl (pf\<lparr>remote := r, writeFails := wr\<rparr>) base b = pdfUrl pf base b"
  by (simp add: pdfUrl_def split: option.splits)

lemma pdfTargetPath_outside:
  "pdfTargetPath (pf\<lparr>remote := r, writeFails := wr\<rparr>) cur n cs = pdfTargetPath pf cur n cs"
  by (simp add: pdfTargetPath_def itemPath_outside)

lemma documentOk_outside:
  "documentOk (pf\<lparr>remote := r, writeFails := wr\<rparr>) base n cur = documentOk pf base n cur"
  by (simp add: documentOk_def pdfUrl_outside pdfTargetPath_outside split: option.splits sum.splits)

lemma plannedDocument_outside:
  "plannedDocument (pf\<lparr>remote := r, writeFails := wr\<rparr>) base n cur = plannedDocument pf base n cur"
  by (simp add: plannedDocument_def pdfUrl_outside pdfTargetPath_outside
      split: option.splits sum.splits)

lemma createdDirs_outside:
  "createdDirs (pf\<lparr>remote := r, writeFails := wr\<rparr>) ns cur = createdDirs pf ns cur"
  "createdDirsItem (pf\<lparr>remote := r, writeFails := wr\<rparr>) n cur = createdDirsItem pf n cur"
proof (induction pf ns cur and pf n cur rule: createdDirs_createdDirsItem.induct)
  case (1 pf cur)
  show ?case by simp
next
  case (2 pf item items cur)
  then show ?case by simp
next
  case (3 pf t h cso cur)
  then show ?case by (cases cso) (simp_all add: itemPath_outside)
qed

lemma noFault_outside:
  "noFault (pf\<lparr>remote := r, writeFails := wr\<rparr>) base ns cur = noFault pf base ns cur"
  "noFaultItem (pf\<lparr>remote := r, writeFails := wr\<rparr>) base n cur = noFaultItem pf base n cur"
proof (induction pf base ns cur and pf base n cur rule: noFault_noFaultItem.induct)
  case (1 pf base cur)
  show ?case by simp
next
  case (2 pf base item items cur)
  then show ?case by simp
next
  case (3 pf base t h cso cur)
  then show ?case by (cases cso) (auto simp: itemPath_outside documentOk_outside)
qed

lemma plannedDownloads_outside:
  "plannedDownloads (pf\<lparr>remote := r, writeFails := wr\<rparr>) base ns cur = plannedDownloads pf base ns cur"
  "plannedDownloadsItem (pf\<lparr>remote := r, writeFails := wr\<rparr>) base n cur = plannedDownloadsItem pf base n cur"
proof (induction pf base ns cur and pf base n cur rule: plannedDownloads_plannedDownloadsItem.induct)
  case (1 pf base cur)
  show ?case by simp
next
  case (2 pf base item items cur)
  then show ?case by simp
next
  case (3 pf base t h cso cur)
  then show ?case by (cases cso) (simp_all add: itemPath_outside plannedDocument_outside)
qed

text \<open>
  Claim C1, as stated, fails: a node without children gets no directory. The walker calls
  \<^verbatim>\<open>mkdir\<close> on the current path of the item, never on the item's own path; the own
  path of a node becomes a directory only when one of its children is visited.
\<close>

theorem leaf_directory_not_created:
  "processMenuItems (posix serving never) [folder ''GEN'' []] (js ''AIP'') (js ''http://h/PDF/'') emptyWorld
     = Inr \<lparr>dirs = {js ''AIP''}, files = Map.empty, trace = [MkdirOk (js ''AIP'')]\<rparr>
   \<and> itemPath (posix serving never) (js ''AIP'') (folder ''GEN'' []) = js ''AIP/GEN''
   \<and> js ''AIP/GEN'' \<notin> {js ''AIP''}"
  by (simp add: eval_defs)

text \<open>
  Claim C1, amended. After a walk that returns, the directories are those before and
  the current path of every visited item. When no \<^verbatim>\<open>mkdir\<close> fails these are the
  starting path, where the sequence is not empty, and the path of every reachable node
  that has a child, computed by repeated \<open>join\<close> of the parent's path and the sanitized
  title; no other directory is created. When no \<^verbatim>\<open>mkdir\<close> fails, a walk over the same
  nodes with siblings reordered, at any depth, returns too and creates the same set of
  directories, whatever the network answers and whichever writes fail in it.
\<close>

theorem walk_creates_directories_of_branches:
  "processMenuItems pf ns cur base w = Inr w' \<Longrightarrow>
     dirs w' = dirs w \<union> createdDirs pf ns cur
   \<and> ((\<forall>p. \<not> mkdirFails pf p) \<longrightarrow>
        (ns \<noteq> [] \<longrightarrow> cur \<in> dirs w')
        \<and> (\<forall>(n, p) \<in> set (nodePaths pf ns cur). childList n \<noteq> [] \<longrightarrow> p \<in> dirs w')
        \<and> dirs w' - dirs w \<subseteq> insert cur {p. \<exists>n. (n, p) \<in> set (nodePaths pf ns cur) \<and> childList n \<noteq> []})
   \<and> ((\<forall>p. \<not> mkdirFails pf p) \<longrightarrow> siblingPerm ns ns' \<longrightarrow>
        (\<exists>w''. processMenuItems (pf\<lparr>remote := r, writeFails := wr\<rparr>) ns' cur base w = Inr w''
           \<and> dirs w'' = dirs w'))"
proof -
  assume run: "processMenuItems pf ns cur base w = Inr w'"
  have d: "dirs w' = dirs w \<union> createdDirs pf ns cur"
    using run by (rule walk_dirs)
  have branches: "(ns \<noteq> [] \<longrightarrow> cur \<in> dirs w')
        \<and> (\<forall>(n, p) \<in> set (nodePaths pf ns cur). childList n \<noteq> [] \<longrightarrow> p \<in> dirs w')
        \<and> dirs w' - dirs w \<subseteq> insert cur {p. \<exists>n. (n, p) \<in> set (nodePaths pf ns cur) \<and> childList n \<noteq> []}"
    if ok: "\<forall>p. \<not> mkdirFails pf p"
    using d createdDirs_nodePaths(1)[OF ok, of ns cur] by auto
  have perm: "\<exists>w''. processMenuItems (pf\<lparr>remote := r, writeFails := wr\<rparr>) ns' cur base w = Inr w''
      \<and> dirs w'' = dirs w'"
    if p: "siblingPerm ns ns'"
  proof -
    let ?pf = "pf\<lparr>remote := r, writeFails := wr\<rparr>"
    from run have "noFault pf base ns cur"
      using walk_completes(1)[of pf ns cur base w] by blast
    with p have "noFault ?pf base ns' cur"
      by (simp add: siblingPerm_noFault noFault_outside)
    then obtain w'' where r: "processMenuItems ?pf ns' cur base w = Inr w''"
      using walk_completes(1)[of ?pf ns' cur base w] by blast
    from walk_dirs(1)[OF r] d siblingPerm_createdDirs[OF p, of pf cur]
    have "dirs w'' = dirs w'" by (simp add: createdDirs_outside)
    with r show ?thesis by blast
  qed
  from d branches perm show ?thesis by blast
qed

theorem walk_creates_directories_of_branches_witness:
  "processMenuItems (posix serving never)
      [folder ''GEN'' [leaf ''GEN 1'' ''gen1-pl-PL.html''], folder ''ENR'' []]
      (js ''AIP'') (js ''http://h/PDF/'') emptyWorld
    = Inr \<lparr>dirs = {js ''AIP/GEN'', js ''AIP''}, files = [js ''AIP/GEN/GEN 1.pdf'' \<mapsto> bytes ''%PDF''],
           trace = [MkdirOk (js ''AIP''), MkdirOk (js ''AIP/GEN''),
                    Download (js ''http://h/PDF/gen1.pdf'') (js ''AIP/GEN/GEN 1.pdf''),
                    Get (js ''http://h/PDF/gen1.pdf''), Saved (js ''AIP/GEN/GEN 1.pdf''),
                    MkdirOk (js ''AIP'')]\<rparr>
   \<and> siblingPerm [folder ''GEN'' [leaf ''GEN 1'' ''gen1-pl-PL.html''], folder ''ENR'' []]
        [folder ''ENR'' [], folder ''GEN'' [leaf ''GEN 1'' ''gen1-pl-PL.html'']]
   \<and> (\<exists>w''. processMenuItems (posix notFound never)
          [folder ''ENR'' [], folder ''GEN'' [leaf ''GEN 1'' ''gen1-pl-PL.html'']]
          (js ''AIP'') (js ''http://h/PDF/'') emptyWorld = Inr w''
        \<and> dirs w'' = {js ''AIP/GEN'', js ''AIP''})"
proof -
  let ?pf = "posix serving never"
  let ?base = "js ''http://h/PDF/''"
  let ?g = "folder ''GEN'' [leaf ''GEN 1'' ''gen1-pl-PL.html'']"
  let ?e = "folder ''ENR'' []"
  let ?w' = "\<lparr>dirs = {js ''AIP/GEN'', js ''AIP''}, files = [js ''AIP/GEN/GEN 1.pdf'' \<mapsto> bytes ''%PDF''],
           trace = [MkdirOk (js ''AIP''), MkdirOk (js ''AIP/GEN''),
                    Download (js ''http://h/PDF/gen1.pdf'') (js ''AIP/GEN/GEN 1.pdf''),
                    Get (js ''http://h/PDF/gen1.pdf''), Saved (js ''AIP/GEN/GEN 1.pdf''),
                    MkdirOk (js ''AIP'')]\<rparr>"
  have run: "processMenuItems ?pf [?g, ?e] (js ''AIP'') ?base emptyWorld = Inr ?w'"
    by (simp add: eval_defs insert_commute)
  have perm: "siblingPerm [?g, ?e] [?e, ?g]"
    by (rule permSwap)
  have ok: "\<forall>p. \<not> mkdirFails ?pf p"
    by (simp add: posix_def never_def)
  have pf': "?pf\<lparr>remote := notFound, writeFails := never\<rparr> = posix notFound never"
    by (simp add: posix_def)
  from walk_creates_directories_of_branches[OF run, where ns' = "[?e, ?g]" and r = notFound
      and wr = never] ok perm
  have "\<exists>w''. processMenuItems (?pf\<lparr>remote := notFound, writeFails := never\<rparr>) [?e, ?g]
          (js ''AIP'') ?base emptyWorld = Inr w'' \<and> dirs w'' = dirs ?w'"
    by blast
  then have "\<exists>w''. processMenuItems (posix notFound never) [?e, ?g]
          (js ''AIP'') ?base emptyWorld = Inr w'' \<and> dirs w'' = {js ''AIP/GEN'', js ''AIP''}"
    unfolding pf' by simp
  with run perm show ?thesis by blast
qed

section \<open>Running the walk again\<close>

lemma pdfBaseName_href: "href a = href b \<Longrightarrow> pdfBaseName a = pdfBaseName b"
  by (simp add: pdfBaseName_def)

lemma pdfBaseName_Some_href:
  "pdfBaseName n = Some b \<Longrightarrow> \<exists>h. href n = Some h \<and> h \<noteq> []"
  by (auto simp: pdfBaseName_def split: option.splits)

lemma hasDuplicate_child:
  "pdfBaseName n = Some b \<Longrightarrow> c \<in> set cs \<Longrightarrow> href c = href n \<Longrightarrow>
   hasDuplicateInSubtree (the (href n)) cs"
  using pdfBaseName_Some_href[of n b] by (fastforce simp: hasDuplicateInSubtree_def)

lemma no_duplicate_child:
  "pdfBaseName n = Some b \<Longrightarrow> \<forall>c \<in> set cs. href c \<noteq> href n \<Longrightarrow>
   \<not> hasDuplicateInSubtree (the (href n)) cs"
  using pdfBaseName_Some_href[of n b] by (auto simp: hasDuplicateInSubtree_def)

lemma downloads_append: "downloads (es @ es') = downloads es @ downloads es'"
  by (induction es rule: downloads.induct) auto

lemma downloads_none: "\<forall>u p. Download u p \<notin> set es \<Longrightarrow> downloads es = []"
  by (induction es rule: downloads.induct) auto

lemma newEvents_trans:
  "trace w' = trace w @ es \<Longrightarrow> trace w'' = trace w' @ es' \<Longrightarrow>
   newEvents w w'' = newEvents w w' @ newEvents w' w''"
  by (simp add: newEvents_def)

lemma downloadFile_downloads:
  "downloadFile pf u p w = Inr r \<Longrightarrow> downloads (newEvents w (fst r)) = [(u, p)]"
  using newEvents_downloadFile[of pf u p w r] downloads_none by fastforce

lemma processDocument_downloads:
  assumes "processDocument pf item cur base w = Inr w'"
  shows "downloads (newEvents w w') = plannedDocument pf base item cur"
proof (cases "pdfBaseName item")
  case None
  with assms show ?thesis
    by (simp add: processDocument_def plannedDocument_def newEvents_self)
next
  case (Some b)
  with assms obtain u cs where u: "pdfUrl pf base b = Inr u" and cs: "children item = Some cs"
    by (auto simp: processDocument_def split: sum.splits option.splits)
  show ?thesis
  proof (cases "hasDuplicateInSubtree (the (href item)) cs")
    case True
    with assms Some u cs show ?thesis
      by (simp add: processDocument_def plannedDocument_def newEvents_self)
  next
    case False
    with assms Some u cs obtain r where
      r: "downloadFile pf u (pdfTargetPath pf cur item cs) w = Inr r" "w' = fst r"
      by (auto simp: processDocument_def split: sum.splits)
    from downloadFile_downloads[OF r(1)] r(2) Some u cs False show ?thesis
      by (simp add: plannedDocument_def)
  qed
qed

lemma newEvents_created: "newEvents w (created cur w) = [MkdirOk cur]"
  by (simp add: newEvents_def created_simps)

lemma walk_downloads:
  "processMenuItems pf ns cur base w = Inr w' \<Longrightarrow>
   downloads (newEvents w w') = plannedDownloads pf base ns cur"
  "processItem pf n cur base w = Inr w' \<Longrightarrow>
   downloads (newEvents w w') = plannedDownloadsItem pf base n cur"
proof (induction ns cur w and n cur w arbitrary: w' and w' rule: walk_induct[where pf=pf and base=base])
  case (Nil cur w)
  then show ?case by (simp add: newEvents_self)
next
  case (Cons item items cur w)
  from Cons.prems obtain wa where a: "processItem pf item cur base w = Inr wa"
    and b: "processMenuItems pf items cur base wa = Inr w'"
    by (auto split: sum.splits)
  from walk_trace(2)[OF a] walk_trace(1)[OF b]
  have "newEvents w w' = newEvents w wa @ newEvents wa w'"
    using newEvents_trans by blast
  with Cons.IH(1)[OF a] Cons.IH(2)[OF a b] show ?case
    by (simp add: downloads_append)
next
  case (Item item cur w)
  show ?case
  proof (cases "mkdirFails pf cur")
    case True
    with Item.prems show ?thesis
      by (auto simp: processItem_unfold plannedDownloadsItem_unfold newEvents_def emit_simps)
  next
    case False
    with Item.prems obtain w2 where
      d: "processDocument pf item cur base (created cur w) = Inr w2"
      and r: "processMenuItems pf (childList item) (itemPath pf cur item) base w2 = Inr w'"
      by (auto simp: processItem_unfold split: sum.splits)
    have t1: "trace (created cur w) = trace w @ [MkdirOk cur]" by (simp add: created_simps)
    from processDocument_trace[OF d] obtain es where t2: "trace w2 = trace (created cur w) @ es" by blast
    from walk_trace(1)[OF r] obtain es' where t3: "trace w' = trace w2 @ es'" by blast
    from t1 t2 have t12: "trace w2 = trace w @ ([MkdirOk cur] @ es)" by simp
    have "newEvents w w' = newEvents w w2 @ newEvents w2 w'"
      using newEvents_trans[OF t12 t3] .
    moreover have "newEvents w w2 = newEvents w (created cur w) @ newEvents (created cur w) w2"
      using newEvents_trans[OF t1 t2] .
    ultimately have "downloads (newEvents w w') =
        downloads (newEvents (created cur w) w2) @ downloads (newEvents w2 w')"
      by (simp add: downloads_append newEvents_created)
    with processDocument_downloads[OF d] Item.IH[OF False d r] False
    show ?thesis by (simp add: plannedDownloadsItem_unfold)
  qed
qed

lemma map_le_None: "m \<subseteq>\<^sub>m m' \<Longrightarrow> m' k = None \<Longrightarrow> m k = None"
  by (metis domIff map_le_def)

lemma downloadFile_requests:
  assumes d: "downloadFile pf u p w = Inr r" and g: "Get u' \<in> set (newEvents w (fst r))"
  shows "u' = u \<and> files w p = None \<and> Download u p \<in> set (newEvents w (fst r))"
proof -
  from d have nr: "\<not> rejectsPath pf p" by (rule downloadFile_Inr)
  show ?thesis
  proof (cases "files w p")
    case None
    with d nr have r: "r = fetchAndWrite pf u p (emit (Download u p) w)"
      by (simp add: downloadFile_absent)
    from fetchAndWrite_trace[of pf u p "emit (Download u p) w"] obtain es where
      es: "trace (fst r) = trace w @ Download u p # Get u # es" "\<forall>u'. Get u' \<notin> set es"
      unfolding r by (auto simp: emit_simps)
    from es(1) have n: "newEvents w (fst r) = Download u p # Get u # es"
      by (rule newEvents_append)
    with g es(2) None show ?thesis by auto
  next
    case (Some c)
    then have "p \<in> dom (files w)" by blast
    with d nr have "r = (emit (Download u p) w, True)"
      by (simp add: downloadFile_existing)
    with g show ?thesis by (simp add: newEvents_def emit_simps)
  qed
qed

lemma processDocument_requests:
  assumes d: "processDocument pf item cur base w = Inr w'" and g: "Get u \<in> set (newEvents w w')"
  shows "\<exists>p. Download u p \<in> set (newEvents w w') \<and> files w p = None"
proof -
  from processDocument_Inr_cases[OF d] g obtain u' cs r where
    r: "downloadFile pf u' (pdfTargetPath pf cur item cs) w = Inr r" "w' = fst r"
    by (auto simp: newEvents_self)
  from downloadFile_requests[OF r(1)] g r(2) show ?thesis by blast
qed

lemma walk_requests:
  "processMenuItems pf ns cur base w = Inr w' \<Longrightarrow> Get u \<in> set (newEvents w w') \<Longrightarrow>
   \<exists>p. Download u p \<in> set (newEvents w w') \<and> files w p = None"
  "processItem pf n cur base w = Inr w' \<Longrightarrow> Get u \<in> set (newEvents w w') \<Longrightarrow>
   \<exists>p. Download u p \<in> set (newEvents w w') \<and> files w p = None"
proof (induction ns cur w and n cur w arbitrary: w' and w' rule: walk_induct[where pf=pf and base=base])
  case (Nil cur w)
  then show ?case by (simp add: newEvents_self)
next
  case (Cons item items cur w)
  from Cons.prems(1) obtain wa where a: "processItem pf item cur base w = Inr wa"
    and b: "processMenuItems pf items cur base wa = Inr w'"
    by (auto split: sum.splits)
  from walk_trace(2)[OF a] walk_trace(1)[OF b]
  have n: "newEvents w w' = newEvents w wa @ newEvents wa w'"
    using newEvents_trans by blast
  from Cons.prems(2) n consider "Get u \<in> set (newEvents w wa)" | "Get u \<in> set (newEvents wa w')"
    by auto
  then show ?case
  proof cases
    case 1
    from Cons.IH(1)[OF a 1] n show ?thesis by auto
  next
    case 2
    from Cons.IH(2)[OF a b 2] obtain p where p: "Download u p \<in> set (newEvents wa w')"
      "files wa p = None" by blast
    from walk_files(2)[OF a] p(2) have "files w p = None" by (rule map_le_None)
    with p(1) n show ?thesis by auto
  qed
next
  case (Item item cur w)
  show ?case
  proof (cases "mkdirFails pf cur")
    case True
    with Item.prems show ?thesis
      by (auto simp: processItem_unfold newEvents_def emit_simps)
  next
    case False
    with Item.prems(1) obtain w2 where
      d: "processDocument pf item cur base (created cur w) = Inr w2"
      and r: "processMenuItems pf (childList item) (itemPath pf cur item) base w2 = Inr w'"
      by (auto simp: processItem_unfold split: sum.splits)
    have t1: "trace (created cur w) = trace w @ [MkdirOk cur]" by (simp add: created_simps)
    from processDocument_trace[OF d] obtain es where t2: "trace w2 = trace (created cur w) @ es" by blast
    from walk_trace(1)[OF r] obtain es' where t3: "trace w' = trace w2 @ es'" by blast
    from t1 t2 have t12: "trace w2 = trace w @ ([MkdirOk cur] @ es)" by simp
    have n: "newEvents w w' = MkdirOk cur # newEvents (created cur w) w2 @ newEvents w2 w'"
      using newEvents_trans[OF t12 t3] newEvents_trans[OF t1 t2] by (simp add: newEvents_created)
    from Item.prems(2) n consider "Get u \<in> set (newEvents (created cur w) w2)"
      | "Get u \<in> set (newEvents w2 w')" by auto
    then show ?thesis
    proof cases
      case 1
      from processDocument_requests[OF d 1] n show ?thesis by (auto simp: created_simps)
    next
      case 2
      from Item.IH[OF False d r 2] obtain p where p: "Download u p \<in> set (newEvents w2 w')"
        "files w2 p = None" by blast
      from processDocument_files[OF d] p(2) have "files (created cur w) p = None"
        by (rule map_le_None)
      with p(1) n show ?thesis by (auto simp: created_simps)
    qed
  qed
qed

lemma processDocument_again:
  assumes d: "processDocument pf item cur base w = Inr w1"
    and le: "files w1 \<subseteq>\<^sub>m files t"
  shows "\<exists>t2. processDocument pf item cur base t = Inr t2 \<and> files t2 = files t"
proof (cases "pdfBaseName item")
  case None
  then show ?thesis by (simp add: processDocument_no_base)
next
  case (Some b)
  with d obtain u cs where u: "pdfUrl pf base b = Inr u" and cs: "children item = Some cs"
    by (auto simp: processDocument_def split: sum.splits option.splits)
  show ?thesis
  proof (cases "hasDuplicateInSubtree (the (href item)) cs")
    case True
    then show ?thesis using Some u cs by (simp add: processDocument_dedup)
  next
    case False
    let ?p = "pdfTargetPath pf cur item cs"
    note pd = processDocument_download[OF Some u cs False]
    from d pd[of cur w] obtain r where r: "downloadFile pf u ?p w = Inr r" "w1 = fst r"
      by (auto split: sum.splits)
    from r(1) have nr: "\<not> rejectsPath pf ?p" by (rule downloadFile_Inr)
    show ?thesis
    proof (cases "files t ?p")
      case (Some c)
      then have "?p \<in> dom (files t)" by blast
      with nr pd[of cur t] show ?thesis by (simp add: downloadFile_existing emit_simps)
    next
      case None
      with le have n1: "files w1 ?p = None" by (rule map_le_None)
      from downloadFile_files[OF r(1)] r(2) n1 have nw: "files w ?p = None"
        by (auto intro: map_le_None)
      from r nr nw have w1: "w1 = fst (fetchAndWrite pf u ?p (emit (Download u ?p) w))"
        by (simp add: downloadFile_absent)
      from n1 have "failing pf u \<or> writeFails pf ?p"
        unfolding w1
        by (auto simp: fetchAndWrite_def failing_def emit_def Let_def split: fetch_result.splits if_splits)
      then have "files (fst (fetchAndWrite pf u ?p (emit (Download u ?p) t))) = files t"
        by (auto simp: fetchAndWrite_def failing_def emit_def Let_def split: fetch_result.splits)
      with nr None pd[of cur t] show ?thesis by (simp add: downloadFile_absent)
    qed
  qed
qed

lemma walk_again:
  "processMenuItems pf ns cur base w = Inr w1 \<Longrightarrow> files w1 \<subseteq>\<^sub>m files t \<Longrightarrow>
   \<exists>t2. processMenuItems pf ns cur base t = Inr t2 \<and> files t2 = files t"
  "processItem pf n cur base w = Inr w1 \<Longrightarrow> files w1 \<subseteq>\<^sub>m files t \<Longrightarrow>
   \<exists>t2. processItem pf n cur base t = Inr t2 \<and> files t2 = files t"
proof (induction ns cur w and n cur w arbitrary: w1 t and w1 t rule: walk_induct[where pf=pf and base=base])
  case (Nil cur w)
  then show ?case by simp
next
  case (Cons item items cur w)
  from Cons.prems(1) obtain wa where a: "processItem pf item cur base w = Inr wa"
    and b: "processMenuItems pf items cur base wa = Inr w1"
    by (auto split: sum.splits)
  from walk_files(1)[OF b] Cons.prems(2) have "files wa \<subseteq>\<^sub>m files t" by (rule map_le_trans)
  from Cons.IH(1)[OF a this] obtain ta where ta: "processItem pf item cur base t = Inr ta"
    "files ta = files t" by blast
  from Cons.prems(2) ta(2) have "files w1 \<subseteq>\<^sub>m files ta" by simp
  from Cons.IH(2)[OF a b this] obtain t2 where "processMenuItems pf items cur base ta = Inr t2"
    "files t2 = files ta" by blast
  with ta show ?case by simp
next
  case (Item item cur w)
  show ?case
  proof (cases "mkdirFails pf cur")
    case True
    then show ?thesis by (simp add: processItem_unfold emit_simps)
  next
    case False
    with Item.prems(1) obtain w2 where
      d: "processDocument pf item cur base (created cur w) = Inr w2"
      and r: "processMenuItems pf (childList item) (itemPath pf cur item) base w2 = Inr w1"
      by (auto simp: processItem_unfold split: sum.splits)
    from walk_files(1)[OF r] Item.prems(2) have "files w2 \<subseteq>\<^sub>m files (created cur t)"
      by (auto simp: created_simps intro: map_le_trans)
    from processDocument_again[OF d this] obtain t2 where
      t2: "processDocument pf item cur base (created cur t) = Inr t2" "files t2 = files t"
      by (auto simp: created_simps)
    from Item.prems(2) t2(2) have "files w1 \<subseteq>\<^sub>m files t2" by simp
    from Item.IH[OF False d r this] obtain t3 where
      "processMenuItems pf (childList item) (itemPath pf cur item) base t2 = Inr t3"
      "files t3 = files t2" by blast
    with t2 False show ?thesis by (simp add: processItem_unfold)
  qed
qed

lemma set_downloads: "(u, p) \<in> set (downloads es) \<longleftrightarrow> Download u p \<in> set es"
  by (induction es rule: downloads.induct) auto

lemma set_requests: "u \<in> set (requests es) \<longleftrightarrow> Get u \<in> set es"
  by (induction es rule: requests.induct) auto

text \<open>
  Claim C9, as stated, fails: a download that failed in the first run left no file, so
  the second run finds no file at the destination and sends the request again.
\<close>

theorem failed_download_is_fetched_again:
  "processMenuItems (posix notFound never) [leaf ''A'' ''a-pl-PL.html'']
      (js ''AIP'') (js ''http://h/PDF/'') emptyWorld
    = Inr \<lparr>dirs = {js ''AIP''}, files = Map.empty,
           trace = [MkdirOk (js ''AIP''), Download (js ''http://h/PDF/a.pdf'') (js ''AIP/A.pdf''),
                    Get (js ''http://h/PDF/a.pdf'')]\<rparr>
   \<and> processMenuItems (posix notFound never) [leaf ''A'' ''a-pl-PL.html'']
      (js ''AIP'') (js ''http://h/PDF/'')
      \<lparr>dirs = {js ''AIP''}, files = Map.empty,
           trace = [MkdirOk (js ''AIP''), Download (js ''http://h/PDF/a.pdf'') (js ''AIP/A.pdf''),
                    Get (js ''http://h/PDF/a.pdf'')]\<rparr>
    = Inr \<lparr>dirs = {js ''AIP''}, files = Map.empty,
           trace = [MkdirOk (js ''AIP''), Download (js ''http://h/PDF/a.pdf'') (js ''AIP/A.pdf''),
                    Get (js ''http://h/PDF/a.pdf''),
                    MkdirOk (js ''AIP''), Download (js ''http://h/PDF/a.pdf'') (js ''AIP/A.pdf''),
                    Get (js ''http://h/PDF/a.pdf'')]\<rparr>"
  by (simp add: eval_defs)

text \<open>
  Claim C9, amended. On the same platform (the same answers of the network, the same
  outcomes of \<^verbatim>\<open>mkdir\<close> and of writing), a second walk over the same nodes from the
  world the first one left returns, and leaves the files and the directories exactly as
  they were after the first. It calls \<^verbatim>\<open>downloadFile\<close> for the same URLs and
  destinations, and sends a request to the network only for a destination of the first
  run at which there is no file after the first run. So it sends none where every
  destination of the first run has a file afterwards.
\<close>

theorem second_run_changes_nothing:
  "processMenuItems pf ns cur base w = Inr w1 \<Longrightarrow>
   (\<exists>w2. processMenuItems pf ns cur base w1 = Inr w2
      \<and> files w2 = files w1 \<and> dirs w2 = dirs w1
      \<and> downloads (newEvents w1 w2) = downloads (newEvents w w1)
      \<and> (\<forall>u \<in> set (requests (newEvents w1 w2)).
            \<exists>p. (u, p) \<in> set (downloads (newEvents w w1)) \<and> files w1 p = None)
      \<and> ((\<forall>(u, p) \<in> set (downloads (newEvents w w1)). files w1 p \<noteq> None) \<longrightarrow>
            requests (newEvents w1 w2) = []))"
proof -
  assume run: "processMenuItems pf ns cur base w = Inr w1"
  from walk_again(1)[OF run, of w1] obtain w2 where
    again: "processMenuItems pf ns cur base w1 = Inr w2" and f: "files w2 = files w1"
    by auto
  have d: "dirs w2 = dirs w1"
    using walk_dirs(1)[OF run] walk_dirs(1)[OF again] by auto
  have dl: "downloads (newEvents w1 w2) = downloads (newEvents w w1)"
    using walk_downloads(1)[OF run] walk_downloads(1)[OF again] by simp
  have rq: "\<exists>p. (u, p) \<in> set (downloads (newEvents w w1)) \<and> files w1 p = None"
    if "u \<in> set (requests (newEvents w1 w2))" for u
  proof -
    from that have "Get u \<in> set (newEvents w1 w2)" by (simp add: set_requests)
    from walk_requests(1)[OF again this] obtain p where
      "Download u p \<in> set (newEvents w1 w2)" "files w1 p = None" by blast
    then have "(u, p) \<in> set (downloads (newEvents w1 w2))" by (simp add: set_downloads)
    with dl \<open>files w1 p = None\<close> show ?thesis by auto
  qed
  have none: "requests (newEvents w1 w2) = []"
    if all: "\<forall>(u, p) \<in> set (downloads (newEvents w w1)). files w1 p \<noteq> None"
  proof (rule ccontr)
    assume "requests (newEvents w1 w2) \<noteq> []"
    then obtain u where "u \<in> set (requests (newEvents w1 w2))"
      by (meson last_in_set)
    from rq[OF this] all show False by auto
  qed
  from again f d dl rq none show ?thesis by blast
qed

theorem second_run_changes_nothing_witness:
  "processMenuItems (posix serving never) [leaf ''A'' ''a-pl-PL.html'']
      (js ''AIP'') (js ''http://h/PDF/'') emptyWorld
    = Inr \<lparr>dirs = {js ''AIP''}, files = [js ''AIP/A.pdf'' \<mapsto> bytes ''%PDF''],
           trace = [MkdirOk (js ''AIP''), Download (js ''http://h/PDF/a.pdf'') (js ''AIP/A.pdf''),
                    Get (js ''http://h/PDF/a.pdf''), Saved (js ''AIP/A.pdf'')]\<rparr>
   \<and> processMenuItems (posix serving never) [leaf ''A'' ''a-pl-PL.html'']
      (js ''AIP'') (js ''http://h/PDF/'')
      \<lparr>dirs = {js ''AIP''}, files = [js ''AIP/A.pdf'' \<mapsto> bytes ''%PDF''],
           trace = [MkdirOk (js ''AIP''), Download (js ''http://h/PDF/a.pdf'') (js ''AIP/A.pdf''),
                    Get (js ''http://h/PDF/a.pdf''), Saved (js ''AIP/A.pdf'')]\<rparr>
    = Inr \<lparr>dirs = {js ''AIP''}, files = [js ''AIP/A.pdf'' \<mapsto> bytes ''%PDF''],
           trace = [MkdirOk (js ''AIP''), Download (js ''http://h/PDF/a.pdf'') (js ''AIP/A.pdf''),
                    Get (js ''http://h/PDF/a.pdf''), Saved (js ''AIP/A.pdf''),
                    MkdirOk (js ''AIP''), Download (js ''http://h/PDF/a.pdf'') (js ''AIP/A.pdf'')]\<rparr>"
  using second_run_changes_nothing[of "posix serving never" "[leaf ''A'' ''a-pl-PL.html'']"
      "js ''AIP''" "js ''http://h/PDF/''" emptyWorld
      "\<lparr>dirs = {js ''AIP''}, files = [js ''AIP/A.pdf'' \<mapsto> bytes ''%PDF''],
           trace = [MkdirOk (js ''AIP''), Download (js ''http://h/PDF/a.pdf'') (js ''AIP/A.pdf''),
                    Get (js ''http://h/PDF/a.pdf''), Saved (js ''AIP/A.pdf'')]\<rparr>"]
  by (simp add: eval_defs)

section \<open>The rule against duplicates\<close>

lemma plannedDownloads_child:
  "c \<in> set cs \<Longrightarrow> \<not> mkdirFails pf ip \<Longrightarrow>
   set (plannedDocument pf base c ip) \<subseteq> set (plannedDownloads pf base cs ip)"
  by (induction cs) (auto simp: plannedDownloadsItem_unfold)

lemma plannedDocument_download:
  "pdfBaseName c = Some b \<Longrightarrow> pdfUrl pf base b = Inr u \<Longrightarrow> children c = Some ccs \<Longrightarrow>
   \<not> hasDuplicateInSubtree (the (href c)) ccs \<Longrightarrow>
   plannedDocument pf base c ip = [(u, pdfTargetPath pf ip c ccs)]"
  by (simp add: plannedDocument_def)

lemma matching_children_downloaded:
  assumes n: "pdfBaseName n = Some b" "pdfUrl pf base b = Inr u" "children n = Some cs"
    and c: "c \<in> set cs" "href c = href n" "children c = Some ccs"
      "\<forall>g \<in> set ccs. href g \<noteq> href n"
    and m: "\<not> mkdirFails pf cur" "\<not> mkdirFails pf (itemPath pf cur n)"
    and run: "processMenuItems pf [n] cur base w = Inr w'"
  shows "downloads (newEvents w w') = plannedDownloads pf base cs (itemPath pf cur n)
       \<and> (u, pdfTargetPath pf (itemPath pf cur n) c ccs) \<in> set (downloads (newEvents w w'))"
proof -
  let ?ip = "itemPath pf cur n"
  have dup: "hasDuplicateInSubtree (the (href n)) cs"
    using hasDuplicate_child[OF n(1) c(1) c(2)] .
  have pn: "plannedDocument pf base n cur = []"
    using n dup by (simp add: plannedDocument_def)
  from n(3) have cn: "childList n = cs" by (simp add: childList_def)
  have d: "downloads (newEvents w w') = plannedDownloads pf base cs ?ip"
    using walk_downloads(1)[OF run] m(1) pn cn by (simp add: plannedDownloadsItem_unfold)
  have bc: "pdfBaseName c = Some b" using pdfBaseName_href[OF c(2)] n(1) by simp
  have nd: "\<not> hasDuplicateInSubtree (the (href c)) ccs"
    using no_duplicate_child[OF bc, of ccs] c(2) c(4) by simp
  have "plannedDocument pf base c ?ip = [(u, pdfTargetPath pf ?ip c ccs)]"
    using plannedDocument_download[OF bc n(2) c(3) nd] .
  with plannedDownloads_child[OF c(1) m(2), of base] d
  show ?thesis by auto
qed

lemma plannedDownloads_append:
  "plannedDownloads pf base (xs @ ys) cur = plannedDownloads pf base xs cur @ plannedDownloads pf base ys cur"
  by (induction xs) simp_all

lemma filter_url_none: "\<forall>p. (u, p) \<notin> set ds \<Longrightarrow> filter (\<lambda>d. fst d = u) ds = []"
  by (induction ds) auto

lemma processDocument_attempt:
  assumes a: "pdfBaseName item = Some b" "pdfUrl pf base b = Inr u" "children item = Some cs"
    "\<not> hasDuplicateInSubtree (the (href item)) cs"
  shows "\<exists>es. newEvents w (outcomeWorld (processDocument pf item cur base w))
           = Download u (pdfTargetPath pf cur item cs) # es"
proof (cases "downloadFile pf u (pdfTargetPath pf cur item cs) w")
  case (Inl fw)
  from downloadFile_Inl[OF Inl] processDocument_download[OF a, of cur w] Inl show ?thesis
    by (simp add: outcomeWorld_simps newEvents_def emit_simps)
next
  case (Inr r)
  from newEvents_downloadFile[OF Inr] processDocument_download[OF a, of cur w] Inr show ?thesis
    by (auto simp: outcomeWorld_simps)
qed

lemma only_matching_child:
  assumes n: "pdfBaseName n = Some b" "pdfUrl pf base b = Inr u" "children n = Some (pre @ c # post)"
    and c: "href c = href n" "children c = Some ccs" "\<forall>g \<in> set ccs. href g \<noteq> href n"
    and m: "\<not> mkdirFails pf cur" "\<not> mkdirFails pf (itemPath pf cur n)"
    and others: "\<forall>p. (u, p) \<notin> set (plannedDownloads pf base pre (itemPath pf cur n))"
      "\<forall>p. (u, p) \<notin> set (plannedDownloads pf base post (itemPath pf cur n))"
      "\<forall>p. (u, p) \<notin> set (plannedDownloads pf base ccs (itemPath pf (itemPath pf cur n) c))"
    and run: "processMenuItems pf [n] cur base w = Inr w'"
  shows "filter (\<lambda>d. fst d = u) (downloads (newEvents w w'))
       = [(u, pdfTargetPath pf (itemPath pf cur n) c ccs)]"
proof -
  let ?ip = "itemPath pf cur n"
  have dup: "hasDuplicateInSubtree (the (href n)) (pre @ c # post)"
    using hasDuplicate_child[OF n(1) _ c(1), of "pre @ c # post"] by simp
  have pn: "plannedDocument pf base n cur = []"
    using n dup by (simp add: plannedDocument_def)
  from n(3) have cn: "childList n = pre @ c # post" by (simp add: childList_def)
  from c(2) have cc: "childList c = ccs" by (simp add: childList_def)
  have bc: "pdfBaseName c = Some b" using pdfBaseName_href[OF c(1)] n(1) by simp
  have nd: "\<not> hasDuplicateInSubtree (the (href c)) ccs"
    using no_duplicate_child[OF bc, of ccs] c(1) c(3) by simp
  have pc: "plannedDocument pf base c ?ip = [(u, pdfTargetPath pf ?ip c ccs)]"
    using plannedDocument_download[OF bc n(2) c(2) nd] .
  have "downloads (newEvents w w') = plannedDownloads pf base (pre @ c # post) ?ip"
    using walk_downloads(1)[OF run] m(1) pn cn by (simp add: plannedDownloadsItem_unfold)
  also have "\<dots> = plannedDownloads pf base pre ?ip
      @ (u, pdfTargetPath pf ?ip c ccs) # plannedDownloads pf base ccs (itemPath pf ?ip c)
      @ plannedDownloads pf base post ?ip"
    using m(2) pc cc by (simp add: plannedDownloads_append plannedDownloadsItem_unfold)
  finally show ?thesis
    using others by (simp add: filter_url_none)
qed

text \<open>
  Claim C2, as stated, fails: where two direct children repeat the reference of their
  parent, the same URL is downloaded twice, once for each child.
\<close>

theorem two_matching_children_both_downloaded:
  "processMenuItems (posix serving never)
      [branch ''GEN'' ''gen-pl-PL.html''
         [leaf ''GEN 1'' ''gen-pl-PL.html'', leaf ''GEN 2'' ''gen-pl-PL.html'']]
      (js ''AIP'') (js ''http://h/PDF/'') emptyWorld
    = Inr \<lparr>dirs = {js ''AIP/GEN'', js ''AIP''},
           files = [js ''AIP/GEN/GEN 1.pdf'' \<mapsto> bytes ''%PDF'', js ''AIP/GEN/GEN 2.pdf'' \<mapsto> bytes ''%PDF''],
           trace = [MkdirOk (js ''AIP''), MkdirOk (js ''AIP/GEN''),
                    Download (js ''http://h/PDF/gen.pdf'') (js ''AIP/GEN/GEN 1.pdf''),
                    Get (js ''http://h/PDF/gen.pdf''), Saved (js ''AIP/GEN/GEN 1.pdf''),
                    MkdirOk (js ''AIP/GEN''),
                    Download (js ''http://h/PDF/gen.pdf'') (js ''AIP/GEN/GEN 2.pdf''),
                    Get (js ''http://h/PDF/gen.pdf''), Saved (js ''AIP/GEN/GEN 2.pdf'')]\<rparr>"
  by (simp add: eval_defs)

text \<open>
  Claim C2, amended. For a node with a base name and a URL: where a direct child has the
  same reference, \<^verbatim>\<open>downloadFile\<close> is not called for the node, and the processing of
  the node is the creation of the directory followed by the walk of its children. In a
  walk of the node that returns, with \<^verbatim>\<open>mkdir\<close> succeeding for the node and its
  children, the calls of \<^verbatim>\<open>downloadFile\<close> are those expected of the children; every
  direct child with the reference that has a \<^verbatim>\<open>children\<close> field and no child of its
  own with the reference is downloaded to its own path; and where no other node below
  the node is expected to download the same URL, the walk calls \<^verbatim>\<open>downloadFile\<close> for
  that URL exactly once, with the child's path. Where no direct child has the reference,
  \<^verbatim>\<open>downloadFile\<close> is called for the node even if a grandchild has the same reference.
\<close>

theorem dedup_is_one_level:
  "(pdfBaseName n = Some b \<longrightarrow> pdfUrl pf base b = Inr u \<longrightarrow> children n = Some cs \<longrightarrow>
      c \<in> set cs \<longrightarrow> href c = href n \<longrightarrow>
      processDocument pf n cur base w = Inr w
      \<and> (\<not> mkdirFails pf cur \<longrightarrow>
          processItem pf n cur base w =
            processMenuItems pf cs (itemPath pf cur n) base (created cur w)))
   \<and> (pdfBaseName n = Some b \<longrightarrow> pdfUrl pf base b = Inr u \<longrightarrow> children n = Some (pre @ c # post) \<longrightarrow>
      href c = href n \<longrightarrow> children c = Some ccs \<longrightarrow> (\<forall>g \<in> set ccs. href g \<noteq> href n) \<longrightarrow>
      \<not> mkdirFails pf cur \<longrightarrow> \<not> mkdirFails pf (itemPath pf cur n) \<longrightarrow>
      (\<forall>p. (u, p) \<notin> set (plannedDownloads pf base pre (itemPath pf cur n))) \<longrightarrow>
      (\<forall>p. (u, p) \<notin> set (plannedDownloads pf base post (itemPath pf cur n))) \<longrightarrow>
      (\<forall>p. (u, p) \<notin> set (plannedDownloads pf base ccs (itemPath pf (itemPath pf cur n) c))) \<longrightarrow>
      processMenuItems pf [n] cur base w = Inr w' \<longrightarrow>
      filter (\<lambda>d. fst d = u) (downloads (newEvents w w'))
        = [(u, pdfTargetPath pf (itemPath pf cur n) c ccs)])
   \<and> (pdfBaseName n = Some b \<longrightarrow> pdfUrl pf base b = Inr u \<longrightarrow> children n = Some cs \<longrightarrow>
      (\<forall>c \<in> set cs. href c \<noteq> href n) \<longrightarrow>
      c \<in> set cs \<longrightarrow> g \<in> set (childList c) \<longrightarrow> href g = href n \<longrightarrow>
      processDocument pf n cur base w =
        (case downloadFile pf u (pdfTargetPath pf cur n cs) w of
           Inl fw \<Rightarrow> Inl fw
         | Inr r \<Rightarrow> Inr (fst r))
      \<and> (\<exists>es. newEvents w (outcomeWorld (processDocument pf n cur base w))
            = Download u (pdfTargetPath pf cur n cs) # es))
   \<and> (pdfBaseName n = Some b \<longrightarrow> pdfUrl pf base b = Inr u \<longrightarrow> children n = Some cs \<longrightarrow>
      c \<in> set cs \<longrightarrow> href c = href n \<longrightarrow> children c = Some ccs \<longrightarrow>
      (\<forall>g \<in> set ccs. href g \<noteq> href n) \<longrightarrow>
      \<not> mkdirFails pf cur \<longrightarrow> \<not> mkdirFails pf (itemPath pf cur n) \<longrightarrow>
      processMenuItems pf [n] cur base w = Inr w' \<longrightarrow>
      downloads (newEvents w w') = plannedDownloads pf base cs (itemPath pf cur n)
      \<and> (u, pdfTargetPath pf (itemPath pf cur n) c ccs) \<in> set (downloads (newEvents w w')))"
proof (intro conjI impI)
  assume a: "pdfBaseName n = Some b" "pdfUrl pf base b = Inr u" "children n = Some cs"
    "c \<in> set cs" "href c = href n" "children c = Some ccs"
    "\<forall>g \<in> set ccs. href g \<noteq> href n"
    "\<not> mkdirFails pf cur" "\<not> mkdirFails pf (itemPath pf cur n)"
    "processMenuItems pf [n] cur base w = Inr w'"
  note r = matching_children_downloaded[OF a]
  from r show "downloads (newEvents w w') = plannedDownloads pf base cs (itemPath pf cur n)"
    by (rule conjunct1)
  from r show "(u, pdfTargetPath pf (itemPath pf cur n) c ccs) \<in> set (downloads (newEvents w w'))"
    by (rule conjunct2)
next
  assume a: "pdfBaseName n = Some b" "pdfUrl pf base b = Inr u" "children n = Some cs"
    "c \<in> set cs" "href c = href n"
  have dup: "hasDuplicateInSubtree (the (href n)) cs"
    using hasDuplicate_child[OF a(1) a(4) a(5)] .
  show d: "processDocument pf n cur base w = Inr w"
    using processDocument_dedup[OF a(1) a(2) a(3) dup] .
  assume m: "\<not> mkdirFails pf cur"
  from a(3) have "childList n = cs" by (simp add: childList_def)
  with m processDocument_dedup[OF a(1) a(2) a(3) dup, of cur "created cur w"]
  show "processItem pf n cur base w = processMenuItems pf cs (itemPath pf cur n) base (created cur w)"
    by (simp add: processItem_unfold)
next
  assume "pdfBaseName n = Some b" "pdfUrl pf base b = Inr u" "children n = Some (pre @ c # post)"
    "href c = href n" "children c = Some ccs" "\<forall>g \<in> set ccs. href g \<noteq> href n"
    "\<not> mkdirFails pf cur" "\<not> mkdirFails pf (itemPath pf cur n)"
    "\<forall>p. (u, p) \<notin> set (plannedDownloads pf base pre (itemPath pf cur n))"
    "\<forall>p. (u, p) \<notin> set (plannedDownloads pf base post (itemPath pf cur n))"
    "\<forall>p. (u, p) \<notin> set (plannedDownloads pf base ccs (itemPath pf (itemPath pf cur n) c))"
    "processMenuItems pf [n] cur base w = Inr w'"
  then show "filter (\<lambda>d. fst d = u) (downloads (newEvents w w'))
        = [(u, pdfTargetPath pf (itemPath pf cur n) c ccs)]"
    by (rule only_matching_child)
next
  assume a: "pdfBaseName n = Some b" "pdfUrl pf base b = Inr u" "children n = Some cs"
    "\<forall>c \<in> set cs. href c \<noteq> href n"
  have nd: "\<not> hasDuplicateInSubtree (the (href n)) cs"
    using no_duplicate_child[OF a(1) a(4)] .
  show "processDocument pf n cur base w =
      (case downloadFile pf u (pdfTargetPath pf cur n cs) w of Inl fw \<Rightarrow> Inl fw | Inr r \<Rightarrow> Inr (fst r))"
    using processDocument_download[OF a(1) a(2) a(3) nd] .
  show "\<exists>es. newEvents w (outcomeWorld (processDocument pf n cur base w))
            = Download u (pdfTargetPath pf cur n cs) # es"
    using processDocument_attempt[OF a(1) a(2) a(3) nd] .
qed

theorem dedup_is_one_level_witness:
  "processMenuItems (posix serving never)
      [branch ''GEN'' ''gen-pl-PL.html'' [folder ''GEN 0'' [], leaf ''GEN 1'' ''gen-pl-PL.html'']]
      (js ''AIP'') (js ''http://h/PDF/'') emptyWorld
    = Inr \<lparr>dirs = {js ''AIP/GEN'', js ''AIP''},
           files = [js ''AIP/GEN/GEN 1.pdf'' \<mapsto> bytes ''%PDF''],
           trace = [MkdirOk (js ''AIP''), MkdirOk (js ''AIP/GEN''), MkdirOk (js ''AIP/GEN''),
                    Download (js ''http://h/PDF/gen.pdf'') (js ''AIP/GEN/GEN 1.pdf''),
                    Get (js ''http://h/PDF/gen.pdf''), Saved (js ''AIP/GEN/GEN 1.pdf'')]\<rparr>
   \<and> filter (\<lambda>d. fst d = js ''http://h/PDF/gen.pdf'')
        (downloads [MkdirOk (js ''AIP''), MkdirOk (js ''AIP/GEN''), MkdirOk (js ''AIP/GEN''),
                    Download (js ''http://h/PDF/gen.pdf'') (js ''AIP/GEN/GEN 1.pdf''),
                    Get (js ''http://h/PDF/gen.pdf''), Saved (js ''AIP/GEN/GEN 1.pdf'')])
      = [(js ''http://h/PDF/gen.pdf'', js ''AIP/GEN/GEN 1.pdf'')]
   \<and> processDocument (posix serving never)
        (branch ''GEN'' ''gen-pl-PL.html'' [folder ''GEN 1'' [leaf ''GEN 1.1'' ''gen-pl-PL.html'']])
        (js ''AIP'') (js ''http://h/PDF/'') emptyWorld
      = Inr \<lparr>dirs = {}, files = [js ''AIP/GEN/GEN.pdf'' \<mapsto> bytes ''%PDF''],
             trace = [Download (js ''http://h/PDF/gen.pdf'') (js ''AIP/GEN/GEN.pdf''),
                      Get (js ''http://h/PDF/gen.pdf''), Saved (js ''AIP/GEN/GEN.pdf'')]\<rparr>"
proof -
  let ?pf = "posix serving never"
  let ?z = "folder ''GEN 0'' []"
  let ?c = "leaf ''GEN 1'' ''gen-pl-PL.html''"
  let ?n = "branch ''GEN'' ''gen-pl-PL.html'' [?z, ?c]"
  let ?g = "leaf ''GEN 1.1'' ''gen-pl-PL.html''"
  let ?m = "folder ''GEN 1'' [?g]"
  let ?n' = "branch ''GEN'' ''gen-pl-PL.html'' [?m]"
  let ?cur = "js ''AIP''"
  let ?base = "js ''http://h/PDF/''"
  let ?u = "js ''http://h/PDF/gen.pdf''"
  let ?es = "[MkdirOk (js ''AIP''), MkdirOk (js ''AIP/GEN''), MkdirOk (js ''AIP/GEN''),
                    Download (js ''http://h/PDF/gen.pdf'') (js ''AIP/GEN/GEN 1.pdf''),
                    Get (js ''http://h/PDF/gen.pdf''), Saved (js ''AIP/GEN/GEN 1.pdf'')]"
  let ?w' = "\<lparr>dirs = {js ''AIP/GEN'', js ''AIP''},
           files = [js ''AIP/GEN/GEN 1.pdf'' \<mapsto> bytes ''%PDF''], trace = ?es\<rparr>"
  have bn: "pdfBaseName ?n = Some (js ''gen'')" "pdfBaseName ?n' = Some (js ''gen'')"
    by (simp_all add: eval_defs)
  have url: "pdfUrl ?pf ?base (js ''gen'') = Inr ?u"
    by (simp add: eval_defs)
  have ch: "children ?n = Some ([?z] @ ?c # [])" "children ?c = Some []" "href ?c = href ?n"
    "children ?n' = Some [?m]" "href ?g = href ?n'" "?g \<in> set (childList ?m)"
    "\<forall>c \<in> set [?m]. href c \<noteq> href ?n'" "\<forall>g \<in> set []. href g \<noteq> href ?n" "?m \<in> set [?m]"
    by (simp_all add: eval_defs)
  have mk: "\<not> mkdirFails ?pf ?cur" "\<not> mkdirFails ?pf (itemPath ?pf ?cur ?n)"
    by (simp_all add: eval_defs)
  have ip: "itemPath ?pf ?cur ?n = js ''AIP/GEN''"
    by (simp add: eval_defs)
  have tp: "pdfTargetPath ?pf (js ''AIP/GEN'') ?c [] = js ''AIP/GEN/GEN 1.pdf''"
    by (simp add: eval_defs)
  have others: "\<forall>p. (?u, p) \<notin> set (plannedDownloads ?pf ?base [?z] (itemPath ?pf ?cur ?n))"
    "\<forall>p. (?u, p) \<notin> set (plannedDownloads ?pf ?base [] (itemPath ?pf ?cur ?n))"
    "\<forall>p. (?u, p) \<notin> set (plannedDownloads ?pf ?base [] (itemPath ?pf (itemPath ?pf ?cur ?n) ?c))"
    by (simp_all add: eval_defs plannedDocument_def)
  have run: "processMenuItems ?pf [?n] ?cur ?base emptyWorld = Inr ?w'"
    by (simp add: eval_defs insert_commute)
  note t = dedup_is_one_level[where pf = ?pf and base = ?base and cur = ?cur and w = emptyWorld
      and b = "js ''gen''" and u = ?u]
  note once' = t[where n = ?n and pre = "[?z]" and c = ?c and post = "[]" and ccs = "[]" and w' = ?w',
      THEN conjunct2, THEN conjunct1, THEN mp, OF bn(1), THEN mp, OF url, THEN mp, OF ch(1),
      THEN mp, OF ch(3), THEN mp, OF ch(2), THEN mp, OF ch(8), THEN mp, OF mk(1), THEN mp, OF mk(2),
      THEN mp, OF others(1), THEN mp, OF others(2), THEN mp, OF others(3), THEN mp, OF run]
  have "filter (\<lambda>d. fst d = ?u) (downloads (newEvents emptyWorld ?w'))
      = [(?u, pdfTargetPath ?pf (itemPath ?pf ?cur ?n) ?c [])]"
    by (rule once')
  then have once: "filter (\<lambda>d. fst d = ?u) (downloads ?es) = [(?u, js ''AIP/GEN/GEN 1.pdf'')]"
    unfolding ip tp by (simp add: newEvents_def emptyWorld_def)
  note deeper' = t[where n = ?n' and cs = "[?m]" and c = ?m and g = ?g,
      THEN conjunct2, THEN conjunct2, THEN conjunct1, THEN mp, OF bn(2), THEN mp, OF url,
      THEN mp, OF ch(4), THEN mp, OF ch(7), THEN mp, OF ch(9), THEN mp, OF ch(6), THEN mp, OF ch(5),
      THEN conjunct1]
  have "processDocument ?pf ?n' ?cur ?base emptyWorld
      = (case downloadFile ?pf ?u (pdfTargetPath ?pf ?cur ?n' [?m]) emptyWorld of
           Inl fw \<Rightarrow> Inl fw | Inr r \<Rightarrow> Inr (fst r))"
    by (rule deeper')
  then have deeper: "processDocument ?pf ?n' ?cur ?base emptyWorld
      = Inr \<lparr>dirs = {}, files = [js ''AIP/GEN/GEN.pdf'' \<mapsto> bytes ''%PDF''],
             trace = [Download (js ''http://h/PDF/gen.pdf'') (js ''AIP/GEN/GEN.pdf''),
                      Get (js ''http://h/PDF/gen.pdf''), Saved (js ''AIP/GEN/GEN.pdf'')]\<rparr>"
    by (simp add: eval_defs)
  from run once deeper show ?thesis by simp
qed

section \<open>A download that fails\<close>

lemma walk_outside:
  assumes run: "processMenuItems pf ns cur base w = Inr w1"
  shows "\<exists>w2. processMenuItems (pf\<lparr>remote := r, writeFails := wr\<rparr>) ns cur base w = Inr w2
           \<and> dirs w2 = dirs w1
           \<and> downloads (newEvents w w2) = downloads (newEvents w w1)"
proof -
  let ?pf = "pf\<lparr>remote := r, writeFails := wr\<rparr>"
  from run have "noFault pf base ns cur"
    using walk_completes(1)[of pf ns cur base w] by blast
  then have "noFault ?pf base ns cur" by (simp add: noFault_outside)
  then obtain w2 where r2: "processMenuItems ?pf ns cur base w = Inr w2"
    using walk_completes(1)[of ?pf ns cur base w] by blast
  from walk_dirs(1)[OF r2] walk_dirs(1)[OF run] have "dirs w2 = dirs w1"
    by (simp add: createdDirs_outside)
  moreover from walk_downloads(1)[OF r2] walk_downloads(1)[OF run]
  have "downloads (newEvents w w2) = downloads (newEvents w w1)"
    by (simp add: plannedDownloads_outside)
  ultimately show ?thesis using r2 by blast
qed

lemma downloadFile_failing:
  "failing pf u \<Longrightarrow> files w p = None \<Longrightarrow> \<not> rejectsPath pf p \<Longrightarrow>
   downloadFile pf u p w = Inr (emit (Get u) (emit (Download u p) w), False)"
  by (auto simp: failing_def downloadFile_absent fetchAndWrite_def emit_def Let_def
      split: fetch_result.splits)

text \<open>
  Claim C5. A download to a destination that the runtime accepts and that holds no
  file, where the request meets a transport fault or a status that is not a success,
  returns false after its one request, creates no file and changes no directory; it
  returns to the walker, which throws nothing. After an item whose download failed, the
  walk goes on with the next sibling as usual: \<^verbatim>\<open>mkdir\<close> runs, the sibling's own
  download is attempted, and then come its children and the items after it. As long as
  no \<^verbatim>\<open>mkdir\<close> fails, a walk that returns creates the same directories and calls
  \<^verbatim>\<open>downloadFile\<close> for the same URLs and destinations whatever the network answers
  and whichever writes fail.
\<close>

theorem download_failure_is_isolated:
  "(failing pf u \<longrightarrow> files w p = None \<longrightarrow> \<not> rejectsPath pf p \<longrightarrow>
      (\<exists>w'. downloadFile pf u p w = Inr (w', False)
         \<and> files w' = files w
         \<and> dirs w' = dirs w
         \<and> newEvents w w' = [Download u p, Get u]))
   \<and> (\<not> mkdirFails pf cur \<longrightarrow>
       pdfBaseName a = Some ba \<longrightarrow> pdfUrl pf base ba = Inr ua \<longrightarrow> children a = Some csa \<longrightarrow>
       \<not> hasDuplicateInSubtree (the (href a)) csa \<longrightarrow>
       failing pf ua \<longrightarrow> files w (pdfTargetPath pf cur a csa) = None \<longrightarrow>
       \<not> rejectsPath pf (pdfTargetPath pf cur a csa) \<longrightarrow>
       noFault pf base csa (itemPath pf cur a) \<longrightarrow>
       pdfBaseName b = Some bb \<longrightarrow> pdfUrl pf base bb = Inr ub \<longrightarrow> children b = Some csb \<longrightarrow>
       \<not> hasDuplicateInSubtree (the (href b)) csb \<longrightarrow>
       (\<exists>wd wa es.
          downloadFile pf ua (pdfTargetPath pf cur a csa) (created cur w) = Inr (wd, False)
          \<and> files wd = files w
          \<and> processItem pf a cur base w = Inr wa
          \<and> cur \<in> dirs (created cur wa)
          \<and> newEvents (created cur wa) (outcomeWorld (processDocument pf b cur base (created cur wa)))
              = Download ub (pdfTargetPath pf cur b csb) # es
          \<and> processMenuItems pf (a # b # rest) cur base w =
              (case processDocument pf b cur base (created cur wa) of
                 Inl fw \<Rightarrow> Inl fw
               | Inr wb \<Rightarrow>
                   (case processMenuItems pf csb (itemPath pf cur b) base wb of
                      Inl fw \<Rightarrow> Inl fw
                    | Inr w3 \<Rightarrow> processMenuItems pf rest cur base w3))))
   \<and> ((\<forall>p. \<not> mkdirFails pf p) \<longrightarrow> processMenuItems pf ns cur base w = Inr w1 \<longrightarrow>
       (\<exists>w2. processMenuItems (pf\<lparr>remote := r, writeFails := wr\<rparr>) ns cur base w = Inr w2
          \<and> dirs w2 = dirs w1
          \<and> downloads (newEvents w w2) = downloads (newEvents w w1)))"
proof (intro conjI impI)
  assume "processMenuItems pf ns cur base w = Inr w1"
  then show "\<exists>w2. processMenuItems (pf\<lparr>remote := r, writeFails := wr\<rparr>) ns cur base w = Inr w2
          \<and> dirs w2 = dirs w1
          \<and> downloads (newEvents w w2) = downloads (newEvents w w1)"
    by (rule walk_outside)
next
  assume f: "failing pf u" "files w p = None" "\<not> rejectsPath pf p"
  show "\<exists>w'. downloadFile pf u p w = Inr (w', False)
         \<and> files w' = files w \<and> dirs w' = dirs w \<and> newEvents w w' = [Download u p, Get u]"
    by (simp add: downloadFile_failing[OF f] emit_simps newEvents_def)
next
  assume m: "\<not> mkdirFails pf cur"
    and a: "pdfBaseName a = Some ba" "pdfUrl pf base ba = Inr ua" "children a = Some csa"
      "\<not> hasDuplicateInSubtree (the (href a)) csa"
    and f: "failing pf ua" "files w (pdfTargetPath pf cur a csa) = None"
      "\<not> rejectsPath pf (pdfTargetPath pf cur a csa)"
    and nf: "noFault pf base csa (itemPath pf cur a)"
    and b: "pdfBaseName b = Some bb" "pdfUrl pf base bb = Inr ub" "children b = Some csb"
      "\<not> hasDuplicateInSubtree (the (href b)) csb"
  let ?pa = "pdfTargetPath pf cur a csa"
  let ?wd = "emit (Get ua) (emit (Download ua ?pa) (created cur w))"
  have dl: "downloadFile pf ua ?pa (created cur w) = Inr (?wd, False)"
    using downloadFile_failing[OF f(1) _ f(3), of "created cur w"] f(2) by (simp add: created_simps)
  have fd: "files ?wd = files w" by (simp add: emit_simps created_simps)
  have da: "processDocument pf a cur base (created cur w) = Inr ?wd"
    using processDocument_download[OF a, of cur "created cur w"] dl by simp
  from nf obtain wa where wa: "processMenuItems pf csa (itemPath pf cur a) base ?wd = Inr wa"
    using walk_completes(1)[of pf csa "itemPath pf cur a" base ?wd] by blast
  from a(3) have ca: "childList a = csa" by (simp add: childList_def)
  from b(3) have cb: "childList b = csb" by (simp add: childList_def)
  have ia: "processItem pf a cur base w = Inr wa"
    using m da wa ca by (simp add: processItem_unfold)
  have dirs: "cur \<in> dirs (created cur wa)" by (simp add: created_simps)
  from processDocument_attempt[OF b, of "created cur wa" cur] obtain es where
    ev: "newEvents (created cur wa) (outcomeWorld (processDocument pf b cur base (created cur wa)))
          = Download ub (pdfTargetPath pf cur b csb) # es"
    by blast
  have walk: "processMenuItems pf (a # b # rest) cur base w =
              (case processDocument pf b cur base (created cur wa) of
                 Inl fw \<Rightarrow> Inl fw
               | Inr wb \<Rightarrow>
                   (case processMenuItems pf csb (itemPath pf cur b) base wb of
                      Inl fw \<Rightarrow> Inl fw
                    | Inr w3 \<Rightarrow> processMenuItems pf rest cur base w3))"
    using ia m cb by (simp add: processItem_unfold[of pf b] split: sum.splits)
  from dl fd ia dirs ev walk
  show "\<exists>wd wa es.
          downloadFile pf ua (pdfTargetPath pf cur a csa) (created cur w) = Inr (wd, False)
          \<and> files wd = files w
          \<and> processItem pf a cur base w = Inr wa
          \<and> cur \<in> dirs (created cur wa)
          \<and> newEvents (created cur wa) (outcomeWorld (processDocument pf b cur base (created cur wa)))
              = Download ub (pdfTargetPath pf cur b csb) # es
          \<and> processMenuItems pf (a # b # rest) cur base w =
              (case processDocument pf b cur base (created cur wa) of
                 Inl fw \<Rightarrow> Inl fw
               | Inr wb \<Rightarrow>
                   (case processMenuItems pf csb (itemPath pf cur b) base wb of
                      Inl fw \<Rightarrow> Inl fw
                    | Inr w3 \<Rightarrow> processMenuItems pf rest cur base w3))"
    by blast
qed

theorem download_failure_is_isolated_witness:
  "processMenuItems (posix notFound never)
     [leaf ''A'' ''a-pl-PL.html'', leaf ''B'' ''b-pl-PL.html'']
     (js ''AIP'') (js ''http://h/PDF/'') emptyWorld
   = Inr \<lparr>dirs = {js ''AIP''}, files = Map.empty,
          trace = [MkdirOk (js ''AIP''), Download (js ''http://h/PDF/a.pdf'') (js ''AIP/A.pdf''),
                   Get (js ''http://h/PDF/a.pdf''),
                   MkdirOk (js ''AIP''), Download (js ''http://h/PDF/b.pdf'') (js ''AIP/B.pdf''),
                   Get (js ''http://h/PDF/b.pdf'')]\<rparr>
   \<and> downloadFile (posix unreachable never) (js ''http://h/PDF/a.pdf'') (js ''AIP/A.pdf'') emptyWorld
      = Inr (\<lparr>dirs = {}, files = Map.empty,
              trace = [Download (js ''http://h/PDF/a.pdf'') (js ''AIP/A.pdf''),
                       Get (js ''http://h/PDF/a.pdf'')]\<rparr>, False)
   \<and> (\<exists>w2. processMenuItems (posix serving never)
          [leaf ''A'' ''a-pl-PL.html'', leaf ''B'' ''b-pl-PL.html'']
          (js ''AIP'') (js ''http://h/PDF/'') emptyWorld = Inr w2
        \<and> dirs w2 = {js ''AIP''}
        \<and> downloads (newEvents emptyWorld w2)
            = [(js ''http://h/PDF/a.pdf'', js ''AIP/A.pdf''), (js ''http://h/PDF/b.pdf'', js ''AIP/B.pdf'')])"
proof -
  let ?pf = "posix notFound never"
  let ?base = "js ''http://h/PDF/''"
  let ?cur = "js ''AIP''"
  let ?a = "leaf ''A'' ''a-pl-PL.html''"
  let ?b = "leaf ''B'' ''b-pl-PL.html''"
  let ?ua = "js ''http://h/PDF/a.pdf''"
  let ?ub = "js ''http://h/PDF/b.pdf''"
  let ?w1 = "\<lparr>dirs = {js ''AIP''}, files = Map.empty,
          trace = [MkdirOk (js ''AIP''), Download (js ''http://h/PDF/a.pdf'') (js ''AIP/A.pdf''),
                   Get (js ''http://h/PDF/a.pdf''),
                   MkdirOk (js ''AIP''), Download (js ''http://h/PDF/b.pdf'') (js ''AIP/B.pdf''),
                   Get (js ''http://h/PDF/b.pdf'')]\<rparr>"
  have run: "processMenuItems ?pf [?a, ?b] ?cur ?base emptyWorld = Inr ?w1"
    by (simp add: eval_defs)
  have ha: "\<not> mkdirFails ?pf ?cur" "pdfBaseName ?a = Some (js ''a'')" "pdfUrl ?pf ?base (js ''a'') = Inr ?ua"
    "children ?a = Some []" "\<not> hasDuplicateInSubtree (the (href ?a)) []" "failing ?pf ?ua"
    "files emptyWorld (pdfTargetPath ?pf ?cur ?a []) = None"
    "\<not> rejectsPath ?pf (pdfTargetPath ?pf ?cur ?a [])" "noFault ?pf ?base [] (itemPath ?pf ?cur ?a)"
    by (simp_all add: eval_defs failing_def)
  have hb: "pdfBaseName ?b = Some (js ''b'')" "pdfUrl ?pf ?base (js ''b'') = Inr ?ub"
    "children ?b = Some []" "\<not> hasDuplicateInSubtree (the (href ?b)) []"
    by (simp_all add: eval_defs)
  note sib = download_failure_is_isolated[where pf = ?pf and cur = ?cur and base = ?base
      and w = emptyWorld and a = ?a and ba = "js ''a''" and ua = ?ua and csa = "[]"
      and b = ?b and bb = "js ''b''" and ub = ?ub and csb = "[]" and rest = "[]",
      THEN conjunct2, THEN conjunct1, THEN mp, OF ha(1), THEN mp, OF ha(2), THEN mp, OF ha(3),
      THEN mp, OF ha(4), THEN mp, OF ha(5), THEN mp, OF ha(6), THEN mp, OF ha(7), THEN mp, OF ha(8),
      THEN mp, OF ha(9), THEN mp, OF hb(1), THEN mp, OF hb(2), THEN mp, OF hb(3), THEN mp, OF hb(4)]
  from sib obtain wa where "processItem ?pf ?a ?cur ?base emptyWorld = Inr wa"
    by blast
  have hu: "failing (posix unreachable never) ?ua" "files emptyWorld (js ''AIP/A.pdf'') = None"
    "\<not> rejectsPath (posix unreachable never) (js ''AIP/A.pdf'')"
    by (simp_all add: eval_defs failing_def)
  note one = download_failure_is_isolated[where pf = "posix unreachable never" and u = ?ua
      and w = emptyWorld and p = "js ''AIP/A.pdf''",
      THEN conjunct1, THEN mp, OF hu(1), THEN mp, OF hu(2), THEN mp, OF hu(3)]
  from one obtain w' where "downloadFile (posix unreachable never) ?ua (js ''AIP/A.pdf'') emptyWorld
      = Inr (w', False)"
    by blast
  then have dl: "downloadFile (posix unreachable never) ?ua (js ''AIP/A.pdf'') emptyWorld
      = Inr (\<lparr>dirs = {}, files = Map.empty,
              trace = [Download (js ''http://h/PDF/a.pdf'') (js ''AIP/A.pdf''),
                       Get (js ''http://h/PDF/a.pdf'')]\<rparr>, False)"
    by (simp add: eval_defs)
  have ok: "\<forall>p. \<not> mkdirFails ?pf p" by (simp add: posix_def never_def)
  have pf': "?pf\<lparr>remote := serving, writeFails := never\<rparr> = posix serving never"
    by (simp add: posix_def)
  note any = download_failure_is_isolated[where pf = ?pf and ns = "[?a, ?b]" and cur = ?cur
      and base = ?base and w = emptyWorld and ?w1.0 = ?w1 and r = serving and wr = never,
      THEN conjunct2, THEN conjunct2, THEN mp, OF ok, THEN mp, OF run]
  have dw: "downloads (newEvents emptyWorld ?w1) = [(?ua, js ''AIP/A.pdf''), (?ub, js ''AIP/B.pdf'')]"
    by (simp add: newEvents_def emptyWorld_def)
  from any have "\<exists>w2. processMenuItems (posix serving never) [?a, ?b] ?cur ?base emptyWorld = Inr w2
      \<and> dirs w2 = {js ''AIP''}
      \<and> downloads (newEvents emptyWorld w2) = [(?ua, js ''AIP/A.pdf''), (?ub, js ''AIP/B.pdf'')]"
    unfolding pf' dw by simp
  with run dl show ?thesis by blast
qed

end
